theory Spec2Isabelle
  imports Complex_Main "HOL-Library.Sublist"
begin

section \<open>Python strings\<close>

text \<open>
  A Python \<open>str\<close> is modelled as a \<open>string\<close> whose characters are the code points
  below 256. The whitespace class is the one \<open>str.strip\<close>, \<open>str.isspace\<close> and the
  regular expression \<open>\s\<close> share on that range.
\<close>

abbreviation NL :: char where "NL \<equiv> CHR 0x0A"
abbreviation TAB :: char where "TAB \<equiv> CHR 0x09"
abbreviation DQ :: char where "DQ \<equiv> CHR 0x22"

definition isspace :: "char \<Rightarrow> bool" where
  "isspace c = (c \<in> {CHR 0x09, CHR 0x0A, CHR 0x0B, CHR 0x0C, CHR 0x0D,
                      CHR 0x1C, CHR 0x1D, CHR 0x1E, CHR 0x1F, CHR 0x20, CHR 0x85, CHR 0xA0})"

text \<open>\<open>s.strip()\<close>\<close>

definition strip :: "string \<Rightarrow> string" where
  "strip s = rev (dropWhile isspace (rev (dropWhile isspace s)))"

text \<open>\<open>s.startswith(p)\<close>\<close>

definition startswith :: "string \<Rightarrow> string \<Rightarrow> bool" where
  "startswith s p = prefix p s"

text \<open>\<open>p in s\<close>\<close>

fun contains :: "string \<Rightarrow> string \<Rightarrow> bool" where
  "contains [] p = (p = [])"
| "contains (c # cs) p = (prefix p (c # cs) \<or> contains cs p)"

text \<open>\<open>s.split(sep)\<close> for a separator of one character\<close>

fun split_chr :: "char \<Rightarrow> string \<Rightarrow> string list" where
  "split_chr sep [] = [[]]"
| "split_chr sep (c # cs) =
     (if c = sep then [] # split_chr sep cs
      else (case split_chr sep cs of [] \<Rightarrow> [[c]] | p # ps \<Rightarrow> (c # p) # ps))"

text \<open>
  \<open>s.replace(old, new)\<close>: the occurrences of \<open>old\<close> are found from the left and do not
  overlap; for an empty \<open>old\<close>, \<open>new\<close> is put before every character and at the end.
\<close>

function replace :: "string \<Rightarrow> string \<Rightarrow> string \<Rightarrow> string" where
  "replace old new [] = (if old = [] then new else [])"
| "replace old new (c # cs) =
     (if old = [] then new @ c # replace old new cs
      else if prefix old (c # cs) then new @ replace old new (drop (length old - 1) cs)
      else c # replace old new cs)"
  by pat_completeness auto
termination
  by (relation "measure (\<lambda>(old, new, s). length s)") auto

text \<open>\<open>s.count("\n")\<close>\<close>

definition count_nl :: "string \<Rightarrow> nat" where
  "count_nl s = count_list s NL"

section \<open>The remote tagging backend\<close>

definition PAR_SEP :: string where
  "PAR_SEP = ''PaRaSeP''"

definition open_par :: string where
  "open_par = ''<p>'' @ [NL] @ ''<s>'' @ [NL]"

definition close_par :: string where
  "close_par = ''</s>'' @ [NL] @ ''</p>'' @ [NL]"

definition par_break :: string where
  "par_break = ''</s>'' @ [NL] @ ''</p>'' @ [NL] @ ''<p>'' @ [NL] @ ''<s>'' @ [NL]"

definition sent_break :: string where
  "sent_break = ''</s>'' @ [NL] @ ''<s>'' @ [NL]"

definition glue :: string where
  "glue = ''<g/>'' @ [NL]"

text \<open>
  The body of the loop of \<open>run_udp\<close> over the lines of the CoNLL-U payload: what one line
  appends to \<open>vertical\<close>.
\<close>

definition udp_line :: "string \<Rightarrow> string \<Rightarrow> string" where
  "udp_line sfx line =
     (if startswith line ''#'' \<or> strip line = [] then []
      else let parts = split_chr TAB line in
        if length parts < 10 then []
        else if parts ! 1 = PAR_SEP then par_break
        else parts ! 1 @ [TAB] @ parts ! 2 @ [TAB] @ parts ! 3 @ sfx @ [NL]
             @ (if contains (parts ! 9) ''SpaceAfter=No'' then glue else []))"

definition udp_vertical :: "string \<Rightarrow> string \<Rightarrow> string" where
  "udp_vertical result sfx =
     foldl (\<lambda>vertical line. vertical @ udp_line sfx line) open_par (split_chr NL result)
     @ close_par"


datatype exn = KeyError | Raised string

record udp_cfg =
  udp_models :: "string \<rightharpoonup> string"
  apiUrl :: string

text \<open>
  \<open>run_udp\<close>: the model of the language is looked up (a missing key raises), the text is
  posted, and the \<open>result\<close> of the answer is formatted. The service is the parameter
  \<open>post\<close>: the URL, the model and the text go in, and either an exception or the CoNLL-U
  payload comes back.
\<close>

definition run_udp ::
  "(string \<Rightarrow> string \<Rightarrow> string \<Rightarrow> exn + string) \<Rightarrow> string \<Rightarrow> string \<Rightarrow> udp_cfg \<Rightarrow> string
   \<Rightarrow> exn + string" where
  "run_udp post txt lang cfg sfx =
     (case udp_models cfg lang of
        None \<Rightarrow> Inl KeyError
      | Some model \<Rightarrow>
          (case post (apiUrl cfg) model txt of
             Inl e \<Rightarrow> Inl e
           | Inr result \<Rightarrow> Inr (udp_vertical result sfx)))"

section \<open>The in-process backend\<close>

text \<open>
  A token of the annotated document, with the attributes \<open>run_spacy\<close> reads: \<open>text\<close>,
  \<open>lemma_\<close>, \<open>pos_\<close>, \<open>is_space\<close>, \<open>is_punct\<close> and \<open>sent\<close> (the sentence, by its
  number), and \<open>whitespace_\<close>, the trailing whitespace the tokenizer keeps with the token
  (the loop does not read it; it relates the tokens to the text they were cut from).
\<close>

record token =
  tok_text :: string
  tok_lemma :: string
  tok_pos :: string
  tok_is_space :: bool
  tok_is_punct :: bool
  tok_sent :: nat
  tok_whitespace :: string

record spacy_cfg =
  spacy_models :: "string \<rightharpoonup> string"

text \<open>\<open>match("\\s", text)\<close>: the text starts with a whitespace character.\<close>

definition match_space :: "string \<Rightarrow> bool" where
  "match_space s = (case s of [] \<Rightarrow> False | c # _ \<Rightarrow> isspace c)"

text \<open>
  One round of the loop over the tokens. The state is \<open>vertical\<close>, \<open>sent\<close> (\<open>None\<close>
  before the first token; a sentence is never empty, so \<open>sent or token.sent\<close> keeps a
  sentence once there is one) and the text not yet consumed.
\<close>

definition spacy_token ::
  "string \<Rightarrow> string \<times> nat option \<times> string \<Rightarrow> token \<Rightarrow> string \<times> nat option \<times> string" where
  "spacy_token sfx st tok =
     (case st of (vertical, sent, txt) \<Rightarrow>
        if tok_is_space tok then (vertical, sent, txt)
        else
          let sent1 = (case sent of None \<Rightarrow> tok_sent tok | Some s \<Rightarrow> s);
              vertical1 = (if sent1 \<noteq> tok_sent tok then vertical @ sent_break else vertical);
              vertical2 = (if \<not> match_space txt \<and> tok_is_punct tok then vertical1 @ glue
                           else vertical1);
              txt1 = dropWhile isspace txt;
              txt2 = drop (length (tok_text tok)) txt1;
              vertical3 =
                (if tok_text tok = PAR_SEP then vertical2 @ par_break
                 else vertical2 @ tok_text tok @ [TAB]
                        @ (if \<not> tok_is_punct tok then tok_lemma tok else tok_text tok)
                        @ [TAB] @ tok_pos tok @ sfx @ [NL])
          in (vertical3, Some (tok_sent tok), txt2))"

definition spacy_vertical :: "token list \<Rightarrow> string \<Rightarrow> string \<Rightarrow> string" where
  "spacy_vertical doc txt sfx =
     fst (foldl (spacy_token sfx) (open_par, None, txt) doc) @ close_par"

text \<open>
  \<open>run_spacy\<close>: every call looks the model up and loads it; \<open>loads\<close> is the list of the
  models loaded so far. The library is the parameter \<open>pipeline\<close>: the model and the text
  go in, and either an exception (of the load, of the annotation or of the assertion) or
  the tokens come back.
\<close>

definition run_spacy ::
  "(string \<Rightarrow> string \<Rightarrow> exn + token list) \<Rightarrow> string \<Rightarrow> string \<Rightarrow> spacy_cfg \<Rightarrow> string
   \<Rightarrow> string list \<Rightarrow> (exn + string) \<times> string list" where
  "run_spacy pipeline txt lang cfg sfx loads =
     (case spacy_models cfg lang of
        None \<Rightarrow> (Inl KeyError, loads)
      | Some model \<Rightarrow>
          (case pipeline model txt of
             Inl e \<Rightarrow> (Inl e, loads @ [model])
           | Inr doc \<Rightarrow> (Inr (spacy_vertical doc txt sfx), loads @ [model])))"

section \<open>Extraction and segmentation\<close>

text \<open>
  An element of the parsed document, with its tag, its identity and its parent; two
  elements are the same when they agree on all three.
\<close>

datatype 'i element = Element (tag: string) (ident: 'i) (getparent: "'i element option")

definition TEI_P :: string where
  "TEI_P = ''{http://www.tei-c.org/ns/1.0}p''"

definition TEI_BODY :: string where
  "TEI_BODY = ''{http://www.tei-c.org/ns/1.0}body''"

fun get_paragraph :: "'i element option \<Rightarrow> 'i element option" where
  "get_paragraph None = None"
| "get_paragraph (Some (Element t i parent)) =
     (if t \<noteq> TEI_P \<and> t \<noteq> TEI_BODY then get_paragraph parent
      else Some (Element t i parent))"

text \<open>
  A hit of the selection expression is a string together with its parent element.
  \<open>normalize\<close> is \<open>element.replace("\n", " ").replace("\r", " ").strip()\<close>.
\<close>

type_synonym 'i hit = "string \<times> 'i element option"

definition normalize :: "string \<Rightarrow> string" where
  "normalize s = strip (replace [CHR 0x0D] '' '' (replace [NL] '' '' s))"

definition sentinel_piece :: string where
  "sentinel_piece = '' '' @ PAR_SEP @ '' ''"

text \<open>
  One round of the loop of \<open>process_tei\<close> over the hits; the state is \<open>last_p\<close> and
  \<open>text\<close>.
\<close>

definition segment_step ::
  "'i element option \<times> string \<Rightarrow> 'i hit \<Rightarrow> 'i element option \<times> string" where
  "segment_step st h =
     (case st of (last_p, txt) \<Rightarrow>
        let part = normalize (fst h) in
        if part = [] then (last_p, txt)
        else
          let p = get_paragraph (snd h);
              last_p1 = (if last_p = None then p else last_p)
          in if p \<noteq> last_p1 then (p, txt @ sentinel_piece @ part @ '' '')
             else (last_p1, txt @ part @ '' ''))"

definition segment :: "'i hit list \<Rightarrow> string" where
  "segment hits = snd (foldl segment_step (None, []) hits)"

text \<open>
  The same loop with \<open>text\<close> kept as the list of the pieces appended to it, in order:
  each \<open>text += ...\<close> adds one piece.
\<close>

definition segment_step_pieces ::
  "'i element option \<times> string list \<Rightarrow> 'i hit \<Rightarrow> 'i element option \<times> string list" where
  "segment_step_pieces st h =
     (case st of (last_p, pieces) \<Rightarrow>
        let part = normalize (fst h) in
        if part = [] then (last_p, pieces)
        else
          let p = get_paragraph (snd h);
              last_p1 = (if last_p = None then p else last_p)
          in if p \<noteq> last_p1 then (p, pieces @ [sentinel_piece, part @ '' ''])
             else (last_p1, pieces @ [part @ '' '']))"

definition segment_pieces :: "'i hit list \<Rightarrow> string list" where
  "segment_pieces hits = snd (foldl segment_step_pieces (None, []) hits)"

section \<open>Documents and the corpus file\<close>

text \<open>
  The fields of \<open>corpora\<close> and of \<open>cfg\<close> that \<open>process_tei\<close> and \<open>create_vertical\<close>
  read. \<open>corpora["tei"]\<close> is a dictionary, read in the order of its items.
\<close>

record corpus =
  c_id :: string
  c_tei :: "(string \<times> string) list"
  c_xpath :: string
  c_landingPage :: string
  c_lang :: string

record config =
  backend :: string
  udppipe :: udp_cfg
  spacy :: spacy_cfg

text \<open>
  What the outside does during one call of \<open>process_tei\<close>: \<open>fetch\<close> is the download
  and the parse (an exception, or the tree, which answers a selection expression with
  an exception or its hits), \<open>udp_post\<close> and \<open>spacy_pipeline\<close> are the two backends,
  and \<open>t1\<close> to \<open>t4\<close> are the readings of the clock. The replacements done on the
  downloaded content before it is parsed are part of \<open>fetch\<close>; what is printed is not
  modelled.
\<close>

record 'i attempt =
  fetch :: "exn + (string \<Rightarrow> exn + 'i hit list)"
  udp_post :: "string \<Rightarrow> string \<Rightarrow> string \<Rightarrow> exn + string"
  spacy_pipeline :: "string \<Rightarrow> string \<Rightarrow> exn + token list"
  t1 :: real
  t2 :: real
  t3 :: real
  t4 :: real

text \<open>
  The state: the corpus file as written so far, the entries of the dictionary \<open>time\<close>,
  and what was asked of the outside (the locations downloaded, the models loaded, the
  sleeps), each in order.
\<close>

record state =
  vertical_file :: string
  time_download :: real
  time_nlp :: real
  time_tokens :: nat
  http_gets :: "string list"
  spacy_loads :: "string list"
  sleeps :: "nat list"

definition chapter_open :: "string \<Rightarrow> string \<Rightarrow> string" where
  "chapter_open cid html_url =
     ''<chapter ID='' @ [DQ] @ cid @ [DQ] @ '' LandingPageURI='' @ [DQ] @ html_url @ [DQ]
     @ ''>'' @ [NL]"

definition chapter_close :: string where
  "chapter_close = ''</chapter>'' @ [NL]"

definition doc_open :: "string \<Rightarrow> string" where
  "doc_open landing = ''<doc LandingPageURI='' @ [DQ] @ landing @ [DQ] @ ''>'' @ [NL]"

definition doc_close :: string where
  "doc_close = ''</doc>'' @ [NL]"

text \<open>
  \<open>processed.replace("<s>\n</s>\n", "").replace("<p>\n</p>\n", "")\<close>
\<close>

definition postprocess :: "string \<Rightarrow> string" where
  "postprocess processed =
     replace (''<p>'' @ [NL] @ ''</p>'' @ [NL]) []
       (replace (''<s>'' @ [NL] @ ''</s>'' @ [NL]) [] processed)"

text \<open>
  The annotation step of \<open>process_tei\<close>: the backend named by the configuration; the
  list of the models loaded comes back with the result.
\<close>

definition annotate ::
  "config \<Rightarrow> 'i attempt \<Rightarrow> string \<Rightarrow> string \<Rightarrow> string \<Rightarrow> string list
   \<Rightarrow> (exn + string) \<times> string list" where
  "annotate cfg world txt lang sfx loads =
     (if backend cfg = ''udppipe''
      then (run_udp (udp_post world) (strip txt) lang (udppipe cfg) sfx, loads)
      else run_spacy (spacy_pipeline world) (strip txt) lang (spacy cfg) sfx loads)"

definition process_tei ::
  "string \<Rightarrow> corpus \<Rightarrow> config \<Rightarrow> 'i attempt \<Rightarrow> state \<Rightarrow> (exn + bool) \<times> state" where
  "process_tei tei_url corpora cfg world st =
     (let html_url = replace ''.xml'' ''.html'' tei_url;
          st1 = st\<lparr>http_gets := http_gets st @ [tei_url]\<rparr>
      in (case fetch world of
            Inl e \<Rightarrow> (Inl e, st1)
          | Inr tree \<Rightarrow>
             (let st2 = st1\<lparr>vertical_file :=
                             vertical_file st1 @ chapter_open (c_id corpora) html_url\<rparr>
              in (case tree (c_xpath corpora) of
                    Inl e \<Rightarrow> (Inl e, st2)
                  | Inr hits \<Rightarrow>
                     (let txt = segment hits;
                          sfx = TAB # html_url;
                          res = annotate cfg world txt (c_lang corpora) sfx (spacy_loads st2);
                          st3 = st2\<lparr>spacy_loads := snd res\<rparr>
                      in (case fst res of
                            Inl e \<Rightarrow> (Inl e, st3)
                          | Inr processed0 \<Rightarrow>
                             (let processed = postprocess processed0;
                                  tokens = count_nl processed
                              in (Inr True,
                                  st3\<lparr>vertical_file :=
                                         vertical_file st3 @ processed @ chapter_close,
                                       time_download :=
                                         time_download st3 + (t2 world - t1 world),
                                       time_nlp := time_nlp st3 + (t4 world - t3 world),
                                       time_tokens := time_tokens st3 + tokens\<rparr>))))))))"

text \<open>
  The loop \<open>for i in range(10)\<close> of \<open>create_vertical\<close> for one document: \<open>world i\<close>
  is what the outside does during attempt \<open>i\<close>. An attempt that returns true ends the
  loop; any other is followed by \<open>sleep(5)\<close>.
\<close>

fun attempts ::
  "nat list \<Rightarrow> string \<Rightarrow> corpus \<Rightarrow> config \<Rightarrow> (nat \<Rightarrow> 'i attempt) \<Rightarrow> state \<Rightarrow> state" where
  "attempts [] tei_url corpora cfg world st = st"
| "attempts (i # rest) tei_url corpora cfg world st =
     (let r = process_tei tei_url corpora cfg (world i) st
      in if fst r = Inr True then snd r
         else attempts rest tei_url corpora cfg world
                ((snd r)\<lparr>sleeps := sleeps (snd r) @ [5]\<rparr>))"

text \<open>
  The loop of \<open>create_vertical\<close> over the documents of the corpus, and the function
  itself: the file is opened for writing, the statistics start at zero, and the document
  markers enclose what the documents write.
\<close>

definition documents ::
  "(string \<times> string) list \<Rightarrow> corpus \<Rightarrow> config \<Rightarrow> (string \<Rightarrow> nat \<Rightarrow> 'i attempt) \<Rightarrow> state
   \<Rightarrow> state" where
  "documents docs corpora cfg world st =
     foldl (\<lambda>s doc. attempts [0..<10] (fst doc) corpora cfg (world (fst doc)) s) st docs"

definition create_vertical ::
  "corpus \<Rightarrow> config \<Rightarrow> (string \<Rightarrow> nat \<Rightarrow> 'i attempt) \<Rightarrow> state \<Rightarrow> state" where
  "create_vertical corpora cfg world st =
     (let st1 = st\<lparr>vertical_file := doc_open (c_landingPage corpora),
                    time_download := 0, time_nlp := 0, time_tokens := 0\<rparr>;
          st2 = documents (c_tei corpora) corpora cfg world st1
      in st2\<lparr>vertical_file := vertical_file st2 @ doc_close\<rparr>)"

section \<open>Lines and fields\<close>

text \<open>
  The text of a list of lines, each ended by a newline, and a line of fields separated
  by tabs: the vertical format is read and written in these terms.
\<close>

definition unlines :: "string list \<Rightarrow> string" where
  "unlines ls = concat (map (\<lambda>l. l @ [NL]) ls)"

fun tabbed :: "string list \<Rightarrow> string" where
  "tabbed [] = []"
| "tabbed [f] = f"
| "tabbed (f # g # fs) = f @ TAB # tabbed (g # fs)"

text \<open>A token record of a CoNLL-U payload: ten fields, of which the code reads four.\<close>

definition conllu_row :: "string \<Rightarrow> string \<Rightarrow> string \<Rightarrow> string \<Rightarrow> string \<Rightarrow> string" where
  "conllu_row n form lem upos misc =
     tabbed [n, form, lem, upos, ''_'', ''_'', ''_'', ''_'', ''_'', misc]"

section \<open>Notions of the specification\<close>

text \<open>
  A text node of the document, as the selection finds it: its string, the element it is
  the text or the tail of, and whether it is the tail. The string and the element are
  what the loop of \<open>process_tei\<close> gets as the hit and its \<open>getparent()\<close>; the loop
  does not ask whether the string is a tail.
\<close>

record 'i text_node =
  node_string :: string
  node_element :: "'i element"
  node_is_tail :: bool

definition hit_of :: "'i text_node \<Rightarrow> 'i hit" where
  "hit_of n = (node_string n, Some (node_element n))"

text \<open>
  The enclosing block of a text node, in the words of the specification. The text of an
  element stands in that element, and its tail stands in the parent of that element.
  Walking upward from there, the first element that is a paragraph or the body is the
  block; there is none when the walk ends without one. A node is a span unless its
  string is whitespace only, and \<open>span_blocks\<close> lists the blocks of the spans.
  \<open>block_changes\<close> counts the neighbours in a sequence that differ.
\<close>

fun upwards :: "'i element option \<Rightarrow> 'i element list" where
  "upwards None = []"
| "upwards (Some (Element t i parent)) = Element t i parent # upwards parent"

definition is_block :: "'i element \<Rightarrow> bool" where
  "is_block e = (tag e = TEI_P \<or> tag e = TEI_BODY)"

definition stands_in :: "'i text_node \<Rightarrow> 'i element option" where
  "stands_in n = (if node_is_tail n then getparent (node_element n) else Some (node_element n))"

definition enclosing_block :: "'i text_node \<Rightarrow> 'i element option" where
  "enclosing_block n = find is_block (upwards (stands_in n))"

definition span_blocks :: "'i text_node list \<Rightarrow> 'i element option list" where
  "span_blocks nodes =
     map enclosing_block (filter (\<lambda>n. \<not> list_all isspace (node_string n)) nodes)"

definition block_changes :: "'b list \<Rightarrow> nat" where
  "block_changes bs = length (filter (\<lambda>(a, b). a \<noteq> b) (zip bs (tl bs)))"

text \<open>
  What the loop compares instead: for every hit whose normalized string is not empty, the
  result of \<open>get_paragraph\<close> on what \<open>getparent()\<close> gives.
\<close>

definition compared_blocks :: "'i hit list \<Rightarrow> 'i element option list" where
  "compared_blocks hits =
     map (\<lambda>h. get_paragraph (snd h)) (filter (\<lambda>h. normalize (fst h) \<noteq> []) hits)"

text \<open>
  What the loop counts: a change is counted when the compared block differs from the one
  before it and the one before it is not \<open>None\<close>.
\<close>

fun changes_from :: "'b option \<Rightarrow> 'b option list \<Rightarrow> nat" where
  "changes_from lp [] = 0"
| "changes_from lp (b # bs) =
     (if lp \<noteq> None \<and> b \<noteq> lp then 1 else 0) + changes_from b bs"

text \<open>
  The state after the attempts of a list have all failed, each followed by its sleep,
  and what has been written to the corpus file between two states.
\<close>

fun failures ::
  "nat list \<Rightarrow> string \<Rightarrow> corpus \<Rightarrow> config \<Rightarrow> (nat \<Rightarrow> 'i attempt) \<Rightarrow> state \<Rightarrow> state" where
  "failures [] tei_url corpora cfg world st = st"
| "failures (i # rest) tei_url corpora cfg world st =
     failures rest tei_url corpora cfg world
       ((snd (process_tei tei_url corpora cfg (world i) st))
          \<lparr>sleeps := sleeps (snd (process_tei tei_url corpora cfg (world i) st)) @ [5]\<rparr>)"

definition written :: "state \<Rightarrow> state \<Rightarrow> string" where
  "written st st' = drop (length (vertical_file st)) (vertical_file st')"

text \<open>
  A line of the payload is a token record when it is no comment, not blank and has at
  least ten fields; \<open>udp_record\<close> gives its fields.
\<close>

definition udp_record :: "string \<Rightarrow> string list option" where
  "udp_record line =
     (if startswith line ''#'' \<or> strip line = [] then None
      else if length (split_chr TAB line) < 10 then None
      else Some (split_chr TAB line))"

text \<open>
  The tokens that are read as the sentinel: a token record whose second field is the
  sentinel, and a token of the in-process backend that is not whitespace and whose text
  is the sentinel.
\<close>

definition udp_sentinel :: "string \<Rightarrow> bool" where
  "udp_sentinel line = (case udp_record line of None \<Rightarrow> False | Some parts \<Rightarrow> parts ! 1 = PAR_SEP)"

definition spacy_sentinel :: "token \<Rightarrow> bool" where
  "spacy_sentinel tok = (\<not> tok_is_space tok \<and> tok_text tok = PAR_SEP)"

text \<open>
  A token of the in-process backend is well formed when it is whitespace, or its text has
  no newline and no tab and its lemma and its tag have no newline.
\<close>

definition tok_ok :: "token \<Rightarrow> bool" where
  "tok_ok tok = (tok_is_space tok
                 \<or> NL \<notin> set (tok_text tok) \<and> TAB \<notin> set (tok_text tok)
                   \<and> NL \<notin> set (tok_lemma tok) \<and> NL \<notin> set (tok_pos tok))"


text \<open>
  No element of the vertical is empty: no line \<open><s>\<close> is directly followed by a line
  \<open></s>\<close>, and no line \<open><p>\<close> by a line \<open></p>\<close>.
\<close>

definition no_empty_element :: "string list \<Rightarrow> bool" where
  "no_empty_element ls =
     successively (\<lambda>x y. \<not> (x = ''<s>'' \<and> y = ''</s>'') \<and> \<not> (x = ''<p>'' \<and> y = ''</p>'')) ls"

section \<open>The vertical as a list of lines\<close>

text \<open>
  Notions for reasoning about the formatted text line by line. \<open>rm a b\<close> deletes, from
  the left, every line \<open>a\<close> that is directly followed by a line \<open>b\<close>, together with
  that line. The structural lines have a kind of their own and every other line is
  content; \<open>follows_raw\<close> says which kind may follow which in the output of a backend,
  \<open>follows_mid\<close> and \<open>follows_fin\<close> after the deletion of the empty sentences and of
  the empty paragraphs. A line is regular when it has no newline, neither \<open><s>\<close> nor
  \<open><p>\<close> is a proper suffix of it, and its first field is not the sentinel. \<open>inside\<close>
  describes the lines written while a sentence is open, and \<open>chunk\<close> the lines one
  token adds to them.
\<close>

fun rm :: "'a \<Rightarrow> 'a \<Rightarrow> 'a list \<Rightarrow> 'a list" where
  "rm a b (x # y # zs) = (if x = a \<and> y = b then rm a b zs else x # rm a b (y # zs))"
| "rm a b [x] = [x]"
| "rm a b [] = []"

definition no_proper_suffix :: "string \<Rightarrow> string \<Rightarrow> bool" where
  "no_proper_suffix a x = (\<forall>k. 0 < k \<longrightarrow> drop k x \<noteq> a)"

datatype kind = KP | KS | KCS | KCP | KX

definition kind :: "string \<Rightarrow> kind" where
  "kind l = (if l = ''<p>'' then KP else if l = ''<s>'' then KS
             else if l = ''</s>'' then KCS else if l = ''</p>'' then KCP else KX)"

fun follows_raw :: "kind \<Rightarrow> kind \<Rightarrow> bool" where
  "follows_raw KP k = (k = KS)"
| "follows_raw KS k = (k = KCS \<or> k = KX)"
| "follows_raw KX k = (k = KX \<or> k = KCS)"
| "follows_raw KCS k = (k = KCP \<or> k = KS)"
| "follows_raw KCP k = (k = KP)"

fun follows_mid :: "kind \<Rightarrow> kind \<Rightarrow> bool" where
  "follows_mid KP k = (k = KS \<or> k = KCP)"
| "follows_mid KS k = (k = KCS \<or> k = KX)"
| "follows_mid KX k = (k = KX \<or> k = KCS)"
| "follows_mid KCS k = (k = KCP \<or> k = KS)"
| "follows_mid KCP k = (k = KP)"

fun follows_fin :: "kind \<Rightarrow> kind \<Rightarrow> bool" where
  "follows_fin KP k = (k = KS \<or> k = KCP)"
| "follows_fin KS k = (k = KX)"
| "follows_fin KX k = (k = KX \<or> k = KCS)"
| "follows_fin KCS k = (k = KCP \<or> k = KS)"
| "follows_fin KCP k = (k = KP)"

definition ok_line :: "string \<Rightarrow> bool" where
  "ok_line l = (NL \<notin> set l \<and> no_proper_suffix ''<s>'' l \<and> no_proper_suffix ''<p>'' l
                \<and> hd (split_chr TAB l) \<noteq> PAR_SEP)"

abbreviation raw_order :: "string \<Rightarrow> string \<Rightarrow> bool" where
  "raw_order x y \<equiv> follows_raw (kind x) (kind y)"

definition inside :: "string list \<Rightarrow> bool" where
  "inside ls = (ls \<noteq> [] \<and> successively raw_order ls
                \<and> (kind (last ls) = KS \<or> kind (last ls) = KX) \<and> list_all ok_line ls)"

definition chunk :: "string list \<Rightarrow> bool" where
  "chunk c = (list_all ok_line c
              \<and> (c = [] \<or> successively raw_order c
                   \<and> (kind (hd c) = KX \<or> kind (hd c) = KCS)
                   \<and> (kind (last c) = KS \<or> kind (last c) = KX)))"

section \<open>Glue markers, as the specification words them\<close>

text \<open>
  What a list of lines of the payload adds to the vertical of the remote backend.
\<close>

definition udp_body :: "string \<Rightarrow> string list \<Rightarrow> string" where
  "udp_body sfx ls = concat (map (udp_line sfx) ls)"

text \<open>
  The tokens of the in-process backend are aligned with the text when the text is the
  concatenation of the tokens, each with its trailing whitespace, the trailing whitespace
  and the whitespace tokens are whitespace, and every other token starts with a
  character that is not whitespace.
\<close>

definition tok_spaced :: "token \<Rightarrow> bool" where
  "tok_spaced tok =
     (list_all isspace (tok_whitespace tok)
      \<and> (if tok_is_space tok then list_all isspace (tok_text tok)
         else tok_text tok \<noteq> [] \<and> \<not> isspace (hd (tok_text tok))))"

definition aligned :: "token list \<Rightarrow> string \<Rightarrow> bool" where
  "aligned doc tx =
     (tx = concat (map (\<lambda>tok. tok_text tok @ tok_whitespace tok) doc) \<and> list_all tok_spaced doc)"

text \<open>
  The body the in-process backend is to write, told from the tokens alone: \<open>sent\<close> is
  the sentence of the token before, and \<open>spaced\<close> says whether whitespace stands between
  that token (or the start of the text) and this one. A sentence break is written when
  the sentence changes; a glue marker is written before a punctuation token that no
  whitespace separates from what is before it, and before no other token; then comes the
  paragraph break for the sentinel, or the token line.
\<close>

fun spacy_expected :: "string \<Rightarrow> nat option \<Rightarrow> bool \<Rightarrow> token list \<Rightarrow> string" where
  "spacy_expected sfx sent spaced [] = []"
| "spacy_expected sfx sent spaced (tok # doc) =
     (if tok_is_space tok
      then spacy_expected sfx sent (spaced \<or> tok_text tok @ tok_whitespace tok \<noteq> []) doc
      else (if (case sent of None \<Rightarrow> False | Some s \<Rightarrow> s \<noteq> tok_sent tok) then sent_break else [])
           @ (if tok_is_punct tok \<and> \<not> spaced then glue else [])
           @ (if tok_text tok = PAR_SEP then par_break
              else tok_text tok @ TAB # (if tok_is_punct tok then tok_text tok else tok_lemma tok)
                   @ TAB # tok_pos tok @ sfx @ [NL])
           @ spacy_expected sfx (Some (tok_sent tok)) (tok_whitespace tok \<noteq> []) doc)"

section \<open>Example inputs\<close>

text \<open>
  A document of two paragraphs, \<open>Hello world.\<close> and \<open>Foo.\<close>, below one body, and the
  answer of a tagging service to its text: two sentences, the sentinel in between, and
  no space after the final punctuation of each sentence.
\<close>

definition ex_body :: "nat element" where
  "ex_body = Element TEI_BODY 0 None"

definition ex_hits :: "nat hit list" where
  "ex_hits = [(''Hello world.'', Some (Element TEI_P 1 (Some ex_body))),
              (''Foo.'', Some (Element TEI_P 2 (Some ex_body)))]"

definition ex_payload :: string where
  "ex_payload = unlines
     [''# text = Hello world.'',
      conllu_row ''1'' ''Hello'' ''hello'' ''INTJ'' ''_'',
      conllu_row ''2'' ''world'' ''world'' ''NOUN'' ''_'',
      conllu_row ''3'' ''.'' ''.'' ''PUNCT'' ''SpaceAfter=No'',
      [],
      ''# text = PaRaSeP Foo.'',
      conllu_row ''1'' ''PaRaSeP'' ''PaRaSeP'' ''PROPN'' ''_'',
      conllu_row ''2'' ''Foo'' ''foo'' ''NOUN'' ''_'',
      conllu_row ''3'' ''.'' ''.'' ''PUNCT'' ''SpaceAfter=No'',
      []]"

definition ex_url :: string where
  "ex_url = ''https://e.org/a.xml''"

definition ex_html :: string where
  "ex_html = ''https://e.org/a.html''"

definition ex_corpus :: corpus where
  "ex_corpus = \<lparr>c_id = ''demo'', c_tei = [(ex_url, ''A'')], c_xpath = ''.//tei:body//text()'',
                 c_landingPage = ''https://e.org/'', c_lang = ''en''\<rparr>"

definition ex_udp_cfg :: config where
  "ex_udp_cfg = \<lparr>backend = ''udppipe'',
                  udppipe = \<lparr>udp_models = [''en'' \<mapsto> ''english-ewt''],
                             apiUrl = ''https://udpipe.example/process''\<rparr>,
                  spacy = \<lparr>spacy_models = Map.empty\<rparr>\<rparr>"

definition ex_spacy_cfg :: config where
  "ex_spacy_cfg = \<lparr>backend = ''spacy'',
                    udppipe = \<lparr>udp_models = Map.empty, apiUrl = []\<rparr>,
                    spacy = \<lparr>spacy_models = [''en'' \<mapsto> ''en_core_web_sm'']\<rparr>\<rparr>"

definition ex_state :: state where
  "ex_state = \<lparr>vertical_file = [], time_download = 0, time_nlp = 0, time_tokens = 0,
                http_gets = [], spacy_loads = [], sleeps = []\<rparr>"

text \<open>An attempt in which everything answers, and the tagging service answers \<open>payload\<close>.\<close>

definition ex_ok :: "nat hit list \<Rightarrow> string \<Rightarrow> nat attempt" where
  "ex_ok hits payload =
     \<lparr>fetch = Inr (\<lambda>expr. Inr hits),
      udp_post = (\<lambda>url model txt. Inr payload),
      spacy_pipeline = (\<lambda>model txt. Inl (Raised ''not installed'')),
      t1 = 0, t2 = 2, t3 = 2, t4 = 5\<rparr>"

text \<open>An attempt in which the document is downloaded and the tagging service fails.\<close>

definition ex_backend_down :: "nat hit list \<Rightarrow> nat attempt" where
  "ex_backend_down hits =
     \<lparr>fetch = Inr (\<lambda>expr. Inr hits),
      udp_post = (\<lambda>url model txt. Inl (Raised ''connection refused'')),
      spacy_pipeline = (\<lambda>model txt. Inl (Raised ''not installed'')),
      t1 = 0, t2 = 2, t3 = 2, t4 = 5\<rparr>"

text \<open>An attempt in which the download fails.\<close>

definition ex_fetch_down :: "nat attempt" where
  "ex_fetch_down =
     \<lparr>fetch = Inl (Raised ''timeout''),
      udp_post = (\<lambda>url model txt. Inl (Raised ''connection refused'')),
      spacy_pipeline = (\<lambda>model txt. Inl (Raised ''not installed'')),
      t1 = 0, t2 = 2, t3 = 2, t4 = 5\<rparr>"

text \<open>
  The chapter body the specification gives for the example, with \<open>ref\<close> for what it
  writes after the last tab of a token line.
\<close>

definition ex_claimed_body :: "string \<Rightarrow> string" where
  "ex_claimed_body ref = unlines
     [''<p>'', ''<s>'',
      tabbed [''Hello'', ''hello'', ''INTJ'', ref],
      tabbed [''world'', ''world'', ''NOUN'', ref],
      tabbed [''.'', ''.'', ''PUNCT'', ref],
      ''</s>'', ''</p>'',
      ''<p>'', ''<s>'',
      tabbed [''Foo'', ''foo'', ''NOUN'', ref],
      tabbed [''.'', ''.'', ''PUNCT'', ref],
      ''</s>'', ''</p>'']"

text \<open>The chapter body the code writes for it.\<close>

definition ex_body_written :: "string \<Rightarrow> string" where
  "ex_body_written ref = unlines
     [''<p>'', ''<s>'',
      tabbed [''Hello'', ''hello'', ''INTJ'', ref],
      tabbed [''world'', ''world'', ''NOUN'', ref],
      tabbed [''.'', ''.'', ''PUNCT'', ref],
      ''<g/>'',
      ''</s>'', ''</p>'',
      ''<p>'', ''<s>'',
      tabbed [''Foo'', ''foo'', ''NOUN'', ref],
      tabbed [''.'', ''.'', ''PUNCT'', ref],
      ''<g/>'',
      ''</s>'', ''</p>'']"

text \<open>A payload of two sentences of one token each, with a blank line between them.\<close>

definition ex_two_sentences :: string where
  "ex_two_sentences = unlines
     [conllu_row ''1'' ''Yes'' ''yes'' ''INTJ'' ''_'',
      [],
      conllu_row ''1'' ''No'' ''no'' ''INTJ'' ''_'',
      []]"

text \<open>A tagging service that is down during the first attempt and answers afterwards.\<close>

definition ex_flaky :: "nat \<Rightarrow> nat attempt" where
  "ex_flaky i = (if i = 0 then ex_backend_down ex_hits else ex_ok ex_hits ex_payload)"

text \<open>
  The tokens an in-process pipeline gives for \<open>don't\<close>: two tokens with nothing between
  them, neither of them punctuation.
\<close>

definition ex_dont :: "token list" where
  "ex_dont =
     [\<lparr>tok_text = ''do'', tok_lemma = ''do'', tok_pos = ''AUX'', tok_is_space = False,
       tok_is_punct = False, tok_sent = 0, tok_whitespace = []\<rparr>,
      \<lparr>tok_text = ''n't'', tok_lemma = ''not'', tok_pos = ''PART'', tok_is_space = False,
       tok_is_punct = False, tok_sent = 0, tok_whitespace = []\<rparr>]"

text \<open>
  An attempt with the in-process backend, and a corpus of two documents in one language.
\<close>

definition ex_spacy_ok :: "nat attempt" where
  "ex_spacy_ok =
     \<lparr>fetch = Inr (\<lambda>expr. Inr [(''don't'', Some ex_body)]),
      udp_post = (\<lambda>url model txt. Inl (Raised ''connection refused'')),
      spacy_pipeline = (\<lambda>model txt. Inr ex_dont),
      t1 = 0, t2 = 2, t3 = 2, t4 = 5\<rparr>"

definition ex_corpus2 :: corpus where
  "ex_corpus2 = \<lparr>c_id = ''demo'',
                  c_tei = [(''https://e.org/a.xml'', ''A''), (''https://e.org/b.xml'', ''B'')],
                  c_xpath = ''.//tei:body//text()'',
                  c_landingPage = ''https://e.org/'', c_lang = ''en''\<rparr>"



text \<open>A download that fails during the first \<open>n\<close> attempts and works afterwards.\<close>

definition ex_fails_then_ok :: "nat \<Rightarrow> nat \<Rightarrow> nat attempt" where
  "ex_fails_then_ok n i = (if i < n then ex_fetch_down else ex_ok ex_hits ex_payload)"

text \<open>
  A payload with the sentinel as its first and as its last token and twice in a row, and
  the tokens an in-process pipeline gives for \<open>Hello world.  PaRaSeP Foo.\<close>, with a
  whitespace token for the second space.
\<close>

definition ex_edge_payload :: string where
  "ex_edge_payload = unlines
     [conllu_row ''1'' ''PaRaSeP'' ''PaRaSeP'' ''PROPN'' ''_'',
      conllu_row ''2'' ''Foo'' ''foo'' ''NOUN'' ''SpaceAfter=No'',
      conllu_row ''3'' ''PaRaSeP'' ''PaRaSeP'' ''PROPN'' ''_'',
      conllu_row ''4'' ''PaRaSeP'' ''PaRaSeP'' ''PROPN'' ''_'',
      conllu_row ''5'' ''bar'' ''bar'' ''NOUN'' ''_'',
      conllu_row ''6'' ''PaRaSeP'' ''PaRaSeP'' ''PROPN'' ''_'',
      []]"

definition word :: "string \<Rightarrow> string \<Rightarrow> string \<Rightarrow> bool \<Rightarrow> nat \<Rightarrow> string \<Rightarrow> token" where
  "word form lem pos punct s ws =
     \<lparr>tok_text = form, tok_lemma = lem, tok_pos = pos, tok_is_space = False,
      tok_is_punct = punct, tok_sent = s, tok_whitespace = ws\<rparr>"

definition ex_text :: string where
  "ex_text = ''Hello world.  PaRaSeP Foo.''"

definition ex_tokens :: "token list" where
  "ex_tokens =
     [word ''Hello'' ''hello'' ''INTJ'' False 0 '' '',
      word ''world'' ''world'' ''NOUN'' False 0 [],
      word ''.'' ''.'' ''PUNCT'' True 0 '' '',
      \<lparr>tok_text = '' '', tok_lemma = '' '', tok_pos = ''SPACE'', tok_is_space = True,
       tok_is_punct = False, tok_sent = 0, tok_whitespace = []\<rparr>,
      word ''PaRaSeP'' ''PaRaSeP'' ''PROPN'' False 1 '' '',
      word ''Foo'' ''foo'' ''NOUN'' False 1 [],
      word ''.'' ''.'' ''PUNCT'' True 1 []]"

text \<open>A token record with no space after the token, and its ten fields.\<close>

definition ex_glued_row :: string where
  "ex_glued_row = conllu_row ''2'' ''Foo'' ''foo'' ''NOUN'' ''SpaceAfter=No''"

definition ex_glued_fields :: "string list" where
  "ex_glued_fields = [''2'', ''Foo'', ''foo'', ''NOUN'', ''_'', ''_'', ''_'', ''_'', ''_'', ''SpaceAfter=No'']"

text \<open>
  A corpus run in which the first document can never be downloaded and the second one
  is processed at once.
\<close>

definition ex_first_down :: "string \<Rightarrow> nat \<Rightarrow> nat attempt" where
  "ex_first_down url i =
     (if url = ''https://e.org/a.xml'' then ex_fetch_down else ex_ok ex_hits ex_payload)"

text \<open>
  A document with a title in its header and one text in its body, the selection taking
  both; and a body with the text \<open>tail\<close> between two paragraphs, which is the tail of
  the first paragraph.
\<close>

definition ex_header_nodes :: "nat text_node list" where
  "ex_header_nodes =
     [\<lparr>node_string = ''Title'',
       node_element = Element ''{http://www.tei-c.org/ns/1.0}title'' 10
                        (Some (Element ''{http://www.tei-c.org/ns/1.0}teiHeader'' 11 None)),
       node_is_tail = False\<rparr>,
      \<lparr>node_string = ''lead'', node_element = Element TEI_P 1 (Some ex_body),
       node_is_tail = False\<rparr>]"

definition ex_tail_nodes :: "nat text_node list" where
  "ex_tail_nodes =
     [\<lparr>node_string = ''a'', node_element = Element TEI_P 1 (Some ex_body),
       node_is_tail = False\<rparr>,
      \<lparr>node_string = ''tail'', node_element = Element TEI_P 1 (Some ex_body),
       node_is_tail = True\<rparr>,
      \<lparr>node_string = ''b'', node_element = Element TEI_P 2 (Some ex_body),
       node_is_tail = False\<rparr>]"

text \<open>The text nodes of the document of the two paragraphs.\<close>

definition ex_nodes :: "nat text_node list" where
  "ex_nodes =
     [\<lparr>node_string = ''Hello world.'', node_element = Element TEI_P 1 (Some ex_body),
       node_is_tail = False\<rparr>,
      \<lparr>node_string = ''Foo.'', node_element = Element TEI_P 2 (Some ex_body),
       node_is_tail = False\<rparr>]"

section \<open>The worked example\<close>

text \<open>
  C1 (as stated, refuted). The specification gives a chapter body without glue markers
  for the example document. The code writes a different body, whether the last field of
  the specification's token lines is read as the landing page or as a tab and the landing
  page; the body of the in-process backend for the same text differs from it as well.
\<close>

theorem C1_example_body_counterexample:
  "vertical_file (snd (process_tei ex_url ex_corpus ex_udp_cfg (ex_ok ex_hits ex_payload) ex_state))
     \<noteq> chapter_open ''demo'' ex_html @ ex_claimed_body ex_html @ chapter_close
   \<and> vertical_file (snd (process_tei ex_url ex_corpus ex_udp_cfg (ex_ok ex_hits ex_payload) ex_state))
     \<noteq> chapter_open ''demo'' ex_html @ ex_claimed_body (TAB # ex_html) @ chapter_close
   \<and> postprocess (spacy_vertical ex_tokens ex_text (TAB # ex_html)) \<noteq> ex_claimed_body ex_html
   \<and> postprocess (spacy_vertical ex_tokens ex_text (TAB # ex_html))
     \<noteq> ex_claimed_body (TAB # ex_html)"
  by code_simp

text \<open>
  C1 (amended). For the document of the two paragraphs \<open>Hello world.\<close> and \<open>Foo.\<close>, the
  text sent to the backend is \<open>Hello world.  PaRaSeP Foo.\<close>; with the tagging service
  answering the five tokens in two sentences, the sentinel between them and no space
  after the final punctuation of each sentence, the chapter written is the opening
  marker, two paragraphs of one sentence each, in which every token line ends with a tab
  and the landing page and a glue marker follows each final punctuation line, and the
  closing marker.
\<close>

theorem C1_example_body:
  "strip (segment ex_hits) = ''Hello world.  PaRaSeP Foo.''
   \<and> fst (process_tei ex_url ex_corpus ex_udp_cfg (ex_ok ex_hits ex_payload) ex_state) = Inr True
   \<and> vertical_file (snd (process_tei ex_url ex_corpus ex_udp_cfg (ex_ok ex_hits ex_payload) ex_state))
       = chapter_open ''demo'' ex_html @ ex_body_written ex_html @ chapter_close"
  by code_simp

section \<open>Sentence boundaries of the remote backend\<close>

text \<open>
  C3 (the code departs from the claim). A blank line between two token records of the
  payload is skipped like a comment: the two sentences of the example come out as one
  sentence element, with no closing and opening sentence marker between the two token
  lines.
\<close>

theorem C3_blank_line_makes_no_sentence_break:
  "udp_vertical ex_two_sentences [] =
     unlines [''<p>'', ''<s>'',
              tabbed [''Yes'', ''yes'', ''INTJ''],
              tabbed [''No'', ''no'', ''INTJ''],
              ''</s>'', ''</p>'']"
  by code_simp

section \<open>Chapter markers and retries\<close>

text \<open>
  C5 (the code departs from the claim). The opening chapter marker is written before
  the selection and the annotation. An attempt in which the tagging service fails
  raises after the marker is in the file, and the retry writes the marker again: the
  document of the example, annotated at the second attempt, has two opening markers and
  one closing marker.
\<close>

theorem C5_failed_attempt_leaves_chapter_marker:
  "fst (process_tei ex_url ex_corpus ex_udp_cfg (ex_backend_down ex_hits) ex_state)
     = Inl (Raised ''connection refused'')
   \<and> vertical_file (snd (process_tei ex_url ex_corpus ex_udp_cfg (ex_backend_down ex_hits) ex_state))
     = chapter_open ''demo'' ex_html
   \<and> vertical_file (attempts [0..<10] ex_url ex_corpus ex_udp_cfg ex_flaky ex_state)
     = chapter_open ''demo'' ex_html @ chapter_open ''demo'' ex_html
       @ ex_body_written ex_html @ chapter_close"
  by code_simp

section \<open>Model loading\<close>

text \<open>
  C9 (as stated, refuted). Two documents of one language, annotated in process in one
  run: the model of the language is loaded twice.
\<close>

theorem C9_model_loaded_twice_counterexample:
  "spacy_loads (create_vertical ex_corpus2 ex_spacy_cfg (\<lambda>url i. ex_spacy_ok) ex_state)
     = [''en_core_web_sm'', ''en_core_web_sm'']"
  by code_simp

text \<open>
  C9 (amended). No model is kept between calls. For a language with a configured model,
  every call of \<open>run_spacy\<close> loads that model, whatever has been loaded before; so does
  every call of \<open>process_tei\<close> with the in-process backend whose download and selection
  succeed: the list of loads grows by exactly this one model each time.
\<close>

theorem C9_every_call_loads:
  assumes "backend cfg \<noteq> ''udppipe''" "spacy_models (spacy cfg) (c_lang c) = Some model"
      and "fetch w = Inr tree" "tree (c_xpath c) = Inr hits"
  shows "snd (run_spacy pipeline tx (c_lang c) (spacy cfg) sfx loads) = loads @ [model]
       \<and> spacy_loads (snd (process_tei url c cfg w st)) = spacy_loads st @ [model]"
  using assms
  by (simp add: process_tei_def Let_def annotate_def run_spacy_def split: sum.splits)

theorem C9_every_call_loads_witness:
  "backend ex_spacy_cfg \<noteq> ''udppipe''
   \<and> spacy_models (spacy ex_spacy_cfg) (c_lang ex_corpus) = Some ''en_core_web_sm''
   \<and> fetch ex_spacy_ok = Inr (\<lambda>expr. Inr [(''don't'', Some ex_body)])
   \<and> spacy_loads (snd (process_tei ex_url ex_corpus ex_spacy_cfg ex_spacy_ok
                          (ex_state\<lparr>spacy_loads := [''en_core_web_sm'']\<rparr>)))
       = [''en_core_web_sm'', ''en_core_web_sm'']"
proof -
  have h1: "backend ex_spacy_cfg \<noteq> ''udppipe''" by code_simp
  have h2: "spacy_models (spacy ex_spacy_cfg) (c_lang ex_corpus) = Some ''en_core_web_sm''"
    by (simp add: ex_spacy_cfg_def ex_corpus_def)
  have h3: "fetch ex_spacy_ok = Inr (\<lambda>expr. Inr [(''don't'', Some ex_body)])"
    by (simp add: ex_spacy_ok_def)
  have h4: "(\<lambda>expr. Inr [(''don't'', Some ex_body)]) (c_xpath ex_corpus)
            = (Inr [(''don't'', Some ex_body)] :: exn + nat hit list)" by simp
  have s: "spacy_loads (ex_state\<lparr>spacy_loads := [''en_core_web_sm'']\<rparr>) = [''en_core_web_sm'']"
    by simp
  show ?thesis
    using h1 h2 h3
      C9_every_call_loads[OF h1 h2 h3 h4, where url = ex_url
        and st = "ex_state\<lparr>spacy_loads := [''en_core_web_sm'']\<rparr>", THEN conjunct2]
    unfolding s by simp
qed

section \<open>Statistics\<close>

text \<open>
  C10 (the code departs from the claim). The token count of the statistics grows by the
  number of newlines of the chapter body, structural lines and glue markers included:
  the example has five tokens, and its count grows from 0 to 15. The two times grow by
  the differences of the clock readings of the attempt.
\<close>

theorem C10_token_count_counts_lines:
  "time_tokens (snd (process_tei ex_url ex_corpus ex_udp_cfg (ex_ok ex_hits ex_payload) ex_state)) = 15
   \<and> count_nl (ex_body_written ex_html) = 15
   \<and> time_download (snd (process_tei ex_url ex_corpus ex_udp_cfg (ex_ok ex_hits ex_payload) ex_state)) = 2
   \<and> time_nlp (snd (process_tei ex_url ex_corpus ex_udp_cfg (ex_ok ex_hits ex_payload) ex_state)) = 3"
  by code_simp

section \<open>Segmentation\<close>

text \<open>
  A stripped text does not start with whitespace, so the piece a span adds is never the
  sentinel piece, and the sentinels in the list of pieces can be counted. The loop is
  followed from any state: it counts a block that differs from the one before it, unless
  there is none before it.
\<close>

lemma strip_prefix_aux: "\<exists>n. rev (dropWhile P (rev t)) = take n t"
proof (induction t rule: rev_induct)
  case Nil
  then show ?case by simp
next
  case (snoc x xs)
  then obtain n where n: "rev (dropWhile P (rev xs)) = take n xs" by blast
  show ?case
  proof (cases "P x")
    case True
    then have "rev (dropWhile P (rev (xs @ [x]))) = take (min n (length xs)) (xs @ [x])"
      using n by (simp add: min_def)
    then show ?thesis by blast
  next
    case False
    then have "rev (dropWhile P (rev (xs @ [x]))) = take (Suc (length xs)) (xs @ [x])"
      by simp
    then show ?thesis by blast
  qed
qed

lemma strip_no_leading_space: "strip s \<noteq> [] \<Longrightarrow> \<not> isspace (hd (strip s))"
proof -
  assume ne: "strip s \<noteq> []"
  obtain n where n: "strip s = take n (dropWhile isspace s)"
    unfolding strip_def using strip_prefix_aux by blast
  with ne have d: "dropWhile isspace s \<noteq> []" and n0: "n \<noteq> 0" by auto
  then have "hd (strip s) = hd (dropWhile isspace s)"
    using n by (cases n; cases "dropWhile isspace s") auto
  with d show ?thesis using hd_dropWhile by metis
qed

lemma part_not_sentinel: "normalize s \<noteq> [] \<Longrightarrow> normalize s @ '' '' \<noteq> sentinel_piece"
proof
  assume ne: "normalize s \<noteq> []" and eq: "normalize s @ '' '' = sentinel_piece"
  from ne have "hd (normalize s @ '' '') = hd (normalize s)" by simp
  with eq have "hd (normalize s) = CHR '' ''" by (simp add: sentinel_piece_def)
  moreover have "\<not> isspace (hd (normalize s))"
    using ne strip_no_leading_space unfolding normalize_def by blast
  ultimately show False by (simp add: isspace_def)
qed

lemma pieces_fold_count:
  "count_list (snd (foldl segment_step_pieces (lp, ps) hits)) sentinel_piece
   = count_list ps sentinel_piece + changes_from lp (compared_blocks hits)"
proof (induction hits arbitrary: lp ps)
  case Nil
  then show ?case by (simp add: compared_blocks_def)
next
  case (Cons h hits)
  show ?case
  proof (cases "normalize (fst h) = []")
    case True
    then show ?thesis using Cons.IH[of lp ps]
      by (simp add: segment_step_pieces_def compared_blocks_def)
  next
    case False
    then have ns: "normalize (fst h) @ '' '' \<noteq> sentinel_piece" by (rule part_not_sentinel)
    show ?thesis
      using False ns Cons.IH
      by (auto simp: segment_step_pieces_def compared_blocks_def Let_def)
  qed
qed

lemma changes_from_Some:
  "None \<notin> set bs \<Longrightarrow> lp \<noteq> None \<Longrightarrow> changes_from lp bs = block_changes (lp # bs)"
proof (induction bs arbitrary: lp)
  case Nil
  then show ?case by (simp add: block_changes_def)
next
  case (Cons b bs)
  have "b \<noteq> None" using Cons.prems(1) by (metis list.set_intros(1))
  moreover have "None \<notin> set bs" using Cons.prems(1) by (metis list.set_intros(2))
  ultimately have "changes_from b bs = block_changes (b # bs)" by (rule Cons.IH[rotated])
  then show ?case using Cons.prems by (auto simp: block_changes_def)
qed

lemma changes_from_None:
  "None \<notin> set bs \<Longrightarrow> changes_from None bs = block_changes bs"
proof (cases bs)
  case Nil
  then show ?thesis by (simp add: block_changes_def)
next
  case (Cons b bs')
  assume "None \<notin> set bs"
  then have n: "None \<notin> set (b # bs')" using Cons by simp
  have "b \<noteq> None" using n by (metis list.set_intros(1))
  moreover have "None \<notin> set bs'" using n by (metis list.set_intros(2))
  ultimately have "changes_from b bs' = block_changes (b # bs')" using changes_from_Some by blast
  then show ?thesis using Cons by simp
qed

lemma pieces_count:
  "count_list (segment_pieces hs) sentinel_piece = changes_from None (compared_blocks hs)"
  using pieces_fold_count[of None "[]" hs] by (simp add: segment_pieces_def)

lemma segment_concat_fold:
  "snd (foldl segment_step (lp, concat ps) hits) = concat (snd (foldl segment_step_pieces (lp, ps) hits))
   \<and> fst (foldl segment_step (lp, concat ps) hits) = fst (foldl segment_step_pieces (lp, ps) hits)"
proof (induction hits arbitrary: lp ps)
  case Nil
  then show ?case by simp
next
  case (Cons h hits)
  show ?case
  proof (cases "normalize (fst h) = []")
    case True
    then show ?thesis using Cons.IH[of lp ps]
      by (simp add: segment_step_pieces_def segment_step_def)
  next
    case False
    let ?p = "get_paragraph (snd h)"
    let ?l = "if lp = None then ?p else lp"
    show ?thesis
    proof (cases "?p \<noteq> ?l")
      case True
      then show ?thesis
        using False Cons.IH[of ?p "ps @ [sentinel_piece, normalize (fst h) @ '' '']"]
        by (simp add: segment_step_pieces_def segment_step_def Let_def)
    next
      case F2: False
      then show ?thesis
        using False Cons.IH[of ?l "ps @ [normalize (fst h) @ '' '']"]
        by (simp add: segment_step_pieces_def segment_step_def Let_def)
    qed
  qed
qed

lemma pieces_fold_hd:
  "ps \<noteq> [] \<Longrightarrow> hd (snd (foldl segment_step_pieces (lp, ps) hits)) = hd ps"
  by (induction hits arbitrary: lp ps) (auto simp: segment_step_pieces_def Let_def)

lemma pieces_first:
  "snd (foldl segment_step_pieces (None, []) hits) = [] \<or>
   hd (snd (foldl segment_step_pieces (None, []) hits)) \<noteq> sentinel_piece"
proof (induction hits)
  case Nil
  then show ?case by simp
next
  case (Cons h hits)
  show ?case
  proof (cases "normalize (fst h) = []")
    case True
    then show ?thesis using Cons.IH by (simp add: segment_step_pieces_def)
  next
    case False
    then have "hd (snd (foldl segment_step_pieces (None, []) (h # hits))) = normalize (fst h) @ '' ''"
      by (simp add: segment_step_pieces_def Let_def pieces_fold_hd)
    then show ?thesis using part_not_sentinel[OF False] by simp
  qed
qed

text \<open>
  The walk of \<open>get_paragraph\<close> finds the first paragraph or body on the way upward, and
  a string normalizes to the empty string exactly when it is whitespace only. So the
  blocks the loop compares are the enclosing blocks of the spans, as long as no span is
  the tail of a paragraph or of the body.
\<close>

lemma get_paragraph_find: "get_paragraph e = find is_block (upwards e)"
  by (induction e rule: get_paragraph.induct) (simp_all add: is_block_def)

lemma replace_char: "replace [c] [d] s = map (\<lambda>x. if x = c then d else x) s"
  by (induction s) auto

lemma dropWhile_all: "list_all P (dropWhile P s) \<longleftrightarrow> list_all P s"
  by (induction s) simp_all

lemma strip_empty_iff: "strip s = [] \<longleftrightarrow> list_all isspace s"
proof -
  have "strip s = [] \<longleftrightarrow> dropWhile isspace (rev (dropWhile isspace s)) = []"
    by (simp add: strip_def)
  also have "\<dots> \<longleftrightarrow> list_all isspace (dropWhile isspace s)"
    by (simp add: dropWhile_eq_Nil_conv list_all_iff)
  also have "\<dots> \<longleftrightarrow> list_all isspace s"
    by (rule dropWhile_all)
  finally show ?thesis .
qed

lemma space_for_newlines:
  "list_all isspace (map (\<lambda>x. if x = c then CHR '' '' else x) s) \<longleftrightarrow> list_all isspace s"
  if "isspace c"
  using that by (induction s) (auto simp: isspace_def)

lemma normalize_empty_iff: "normalize s = [] \<longleftrightarrow> list_all isspace s"
proof -
  have "isspace NL" "isspace (CHR 0x0D)" by (simp_all add: isspace_def)
  then show ?thesis
    unfolding normalize_def strip_empty_iff replace_char
    by (simp only: space_for_newlines)
qed

lemma hit_of_parts: "fst (hit_of n) = node_string n" "snd (hit_of n) = Some (node_element n)"
  by (simp_all add: hit_of_def)

lemma compared_blocks_spec:
  assumes "list_all (\<lambda>n. node_is_tail n \<longrightarrow> \<not> is_block (node_element n)) nodes"
  shows "compared_blocks (map hit_of nodes) = span_blocks nodes"
  using assms
proof (induction nodes)
  case Nil
  then show ?case by (simp add: compared_blocks_def span_blocks_def)
next
  case (Cons n nodes)
  obtain t i parent where e: "node_element n = Element t i parent"
    by (cases "node_element n") auto
  have p: "get_paragraph (Some (node_element n)) = enclosing_block n"
    using Cons.prems e
    by (auto simp: get_paragraph_find enclosing_block_def stands_in_def is_block_def)
  have r: "compared_blocks (map hit_of nodes) = span_blocks nodes"
    using Cons by simp
  have c: "compared_blocks (map hit_of (n # nodes))
           = (if list_all isspace (node_string n) then compared_blocks (map hit_of nodes)
              else get_paragraph (Some (node_element n)) # compared_blocks (map hit_of nodes))"
    by (simp add: compared_blocks_def normalize_empty_iff hit_of_parts)
  have s: "span_blocks (n # nodes)
           = (if list_all isspace (node_string n) then span_blocks nodes
              else enclosing_block n # span_blocks nodes)"
    by (simp add: span_blocks_def)
  show ?case unfolding c s p r ..
qed

text \<open>
  Where the code and the specification agree: when no span is the tail of a paragraph or
  of the body and every span has an enclosing block, the Segmenter appends as many
  sentinels as there are spans whose block differs from the block of the span before;
  its text is the concatenation of its pieces, and its first piece is never the
  sentinel.
\<close>

lemma sentinel_count_regular:
  assumes "list_all (\<lambda>n. node_is_tail n \<longrightarrow> \<not> is_block (node_element n)) nodes"
      and "None \<notin> set (span_blocks nodes)"
  shows "count_list (segment_pieces (map hit_of nodes)) sentinel_piece
         = block_changes (span_blocks nodes)"
  using assms pieces_count[of "map hit_of nodes"]
  by (simp add: compared_blocks_spec changes_from_None)

lemma segment_pieces_text:
  "segment hits = concat (segment_pieces hits)
   \<and> (segment_pieces hits = [] \<or> hd (segment_pieces hits) \<noteq> sentinel_piece)"
  using segment_concat_fold[of None "[]" hits] pieces_first[of hits]
  by (simp add: segment_def segment_pieces_def)

lemma sentinel_count_regular_example:
  "count_list (segment_pieces (map hit_of ex_nodes)) sentinel_piece = 1
   \<and> block_changes (span_blocks ex_nodes) = 1 \<and> map hit_of ex_nodes = ex_hits"
  by code_simp

text \<open>
  C8 (the code departs from the claim). The loop takes \<open>last_p is None\<close> for "no span
  yet". A span without an enclosing block, such as a title in the header, leaves
  \<open>last_p\<close> at \<open>None\<close>, and the next span sets it anew: the title and the text of the
  first paragraph have different blocks, and no sentinel is inserted between them.
  Besides, the walk starts at what \<open>getparent()\<close> gives, which for a tail is the element
  before the text and not the one around it: a text between two paragraphs counts as
  part of the first, and one of the two changes of block around it gets no sentinel.
\<close>

theorem C8_block_change_without_sentinel:
  "span_blocks ex_header_nodes = [None, Some (Element TEI_P 1 (Some ex_body))]
   \<and> block_changes (span_blocks ex_header_nodes) = 1
   \<and> count_list (segment_pieces (map hit_of ex_header_nodes)) sentinel_piece = 0
   \<and> segment (map hit_of ex_header_nodes) = ''Title lead ''
   \<and> span_blocks ex_tail_nodes
       = [Some (Element TEI_P 1 (Some ex_body)), Some ex_body, Some (Element TEI_P 2 (Some ex_body))]
   \<and> block_changes (span_blocks ex_tail_nodes) = 2
   \<and> count_list (segment_pieces (map hit_of ex_tail_nodes)) sentinel_piece = 1
   \<and> segment (map hit_of ex_tail_nodes) = ''a tail  PaRaSeP b ''"
  by code_simp

section \<open>Retries\<close>

text \<open>
  What one call of \<open>process_tei\<close> does to the state, whether it raises or returns; what
  a run of failed attempts leaves behind; and the loop over the attempts, split at its
  first success.
\<close>

lemma process_tei_gets: "http_gets (snd (process_tei u c cfg w st)) = http_gets st @ [u]"
  by (simp add: process_tei_def Let_def split: sum.splits)

lemma process_tei_sleeps: "sleeps (snd (process_tei u c cfg w st)) = sleeps st"
  by (simp add: process_tei_def Let_def split: sum.splits)

lemma process_tei_result: "fst (process_tei u c cfg w st) \<noteq> Inr False"
  by (simp add: process_tei_def Let_def split: sum.splits)

lemma process_tei_fail_file:
  "isl (fst (process_tei u c cfg w st)) \<Longrightarrow>
   vertical_file (snd (process_tei u c cfg w st)) = vertical_file st
   \<or> vertical_file (snd (process_tei u c cfg w st))
      = vertical_file st @ chapter_open (c_id c) (replace ''.xml'' ''.html'' u)"
  by (simp add: process_tei_def Let_def split: sum.splits)

lemma process_tei_fail_stats:
  "isl (fst (process_tei u c cfg w st)) \<Longrightarrow>
   time_tokens (snd (process_tei u c cfg w st)) = time_tokens st
   \<and> time_download (snd (process_tei u c cfg w st)) = time_download st
   \<and> time_nlp (snd (process_tei u c cfg w st)) = time_nlp st"
  by (simp add: process_tei_def Let_def split: sum.splits)

lemma process_tei_ok_file:
  "fst (process_tei u c cfg w st) = Inr True \<Longrightarrow>
   \<exists>body. vertical_file (snd (process_tei u c cfg w st))
      = vertical_file st @ chapter_open (c_id c) (replace ''.xml'' ''.html'' u) @ body @ chapter_close
     \<and> time_tokens (snd (process_tei u c cfg w st)) = time_tokens st + count_nl body"
  by (auto simp: process_tei_def Let_def split: sum.splits)

lemma attempts_all_fail:
  "(\<And>i s. i \<in> set is \<Longrightarrow> isl (fst (process_tei u c cfg (w i) s))) \<Longrightarrow>
   attempts is u c cfg w st = failures is u c cfg w st"
proof (induction "is" arbitrary: st)
  case Nil
  then show ?case by simp
next
  case (Cons i rest)
  have "isl (fst (process_tei u c cfg (w i) st))" using Cons.prems by simp
  then have "fst (process_tei u c cfg (w i) st) \<noteq> Inr True" by auto
  then show ?case using Cons by (simp add: Let_def)
qed

lemma attempts_append_fail:
  "(\<And>i s. i \<in> set is \<Longrightarrow> isl (fst (process_tei u c cfg (w i) s))) \<Longrightarrow>
   attempts (is @ js) u c cfg w st = attempts js u c cfg w (failures is u c cfg w st)"
proof (induction "is" arbitrary: st)
  case Nil
  then show ?case by simp
next
  case (Cons i rest)
  have "isl (fst (process_tei u c cfg (w i) st))" using Cons.prems by simp
  then have "fst (process_tei u c cfg (w i) st) \<noteq> Inr True" by auto
  then show ?case using Cons by (simp add: Let_def)
qed

lemma failures_gets:
  "http_gets (failures is u c cfg w st) = http_gets st @ replicate (length is) u"
  by (induction "is" arbitrary: st) (simp_all add: process_tei_gets replicate_app_Cons_same)

lemma failures_sleeps:
  "sleeps (failures is u c cfg w st) = sleeps st @ replicate (length is) 5"
  by (induction "is" arbitrary: st) (simp_all add: process_tei_sleeps replicate_app_Cons_same)

lemma failures_stats:
  "(\<And>i s. i \<in> set is \<Longrightarrow> isl (fst (process_tei u c cfg (w i) s))) \<Longrightarrow>
   time_tokens (failures is u c cfg w st) = time_tokens st
   \<and> time_download (failures is u c cfg w st) = time_download st
   \<and> time_nlp (failures is u c cfg w st) = time_nlp st"
proof (induction "is" arbitrary: st)
  case Nil
  then show ?case by simp
next
  case (Cons i rest)
  have f: "isl (fst (process_tei u c cfg (w i) st))" using Cons.prems by simp
  show ?case using Cons.IH Cons.prems process_tei_fail_stats[OF f] by simp
qed

lemma failures_file:
  "(\<And>i s. i \<in> set is \<Longrightarrow> isl (fst (process_tei u c cfg (w i) s))) \<Longrightarrow>
   \<exists>k\<le>length is. vertical_file (failures is u c cfg w st)
      = vertical_file st @ concat (replicate k (chapter_open (c_id c) (replace ''.xml'' ''.html'' u)))"
proof (induction "is" arbitrary: st)
  case Nil
  then show ?case by simp
next
  case (Cons i rest)
  let ?s = "(snd (process_tei u c cfg (w i) st))\<lparr>sleeps := sleeps (snd (process_tei u c cfg (w i) st)) @ [5]\<rparr>"
  let ?co = "chapter_open (c_id c) (replace ''.xml'' ''.html'' u)"
  have f: "isl (fst (process_tei u c cfg (w i) st))" using Cons.prems by simp
  obtain k where k: "k \<le> length rest"
     "vertical_file (failures rest u c cfg w ?s) = vertical_file ?s @ concat (replicate k ?co)"
    using Cons.IH[of ?s] Cons.prems by auto
  from process_tei_fail_file[OF f] show ?case
  proof
    assume "vertical_file (snd (process_tei u c cfg (w i) st)) = vertical_file st"
    then show ?thesis using k by (intro exI[of _ k]) simp
  next
    assume "vertical_file (snd (process_tei u c cfg (w i) st)) = vertical_file st @ ?co"
    then show ?thesis using k by (intro exI[of _ "Suc k"]) simp
  qed
qed

lemma concat_replicate_Suc_snoc: "concat (replicate (Suc n) x) = concat (replicate n x) @ x"
proof -
  have "replicate (Suc n) x = replicate n x @ [x]" by (simp add: replicate_append_same)
  then show ?thesis by (simp del: replicate_Suc)
qed

lemma chapter_close_not_suffix:
  "\<not> suffix chapter_close (concat (replicate k (chapter_open cid url)))"
proof (cases k)
  case 0
  then show ?thesis by (simp add: chapter_close_def)
next
  case (Suc n)
  show ?thesis
  proof
    assume "suffix chapter_close (concat (replicate k (chapter_open cid url)))"
    then obtain pre where "concat (replicate k (chapter_open cid url)) = pre @ chapter_close"
      by (auto simp: suffix_def)
    then have "rev (concat (replicate n (chapter_open cid url)) @ chapter_open cid url)
               = rev (pre @ chapter_close)"
      using Suc concat_replicate_Suc_snoc[of n "chapter_open cid url"] by simp
    then have "take 3 (rev (chapter_open cid url) @ rev (concat (replicate n (chapter_open cid url))))
               = take 3 (rev chapter_close @ rev pre)"
      by simp
    then show False by (simp add: chapter_open_def chapter_close_def)
  qed
qed


lemma upt_split_at: "N < M \<Longrightarrow> [0..<M] = [0..<N] @ N # [Suc N..<M]"
proof -
  assume a: "N < M"
  then have "[0..<N + (M - N)] = [0..<N] @ [N..<N + (M - N)]"
    by (intro upt_add_eq_append) simp
  then show ?thesis using a by (simp add: upt_conv_Cons)
qed

text \<open>
  C2. Let the attempts before attempt \<open>N\<close> raise and attempt \<open>N\<close> return true (the
  attempts are numbered from 0, so \<open>N\<close> attempts fail first). The loop makes
  \<open>min (N + 1) 10\<close> downloads and sleeps \<open>min N 10\<close> times for 5 seconds, once after
  each failed attempt. What it has written to the corpus file ends with the closing
  chapter marker of the document if and only if \<open>N < 10\<close>: then the final state is the
  one of the successful attempt, started after the \<open>N\<close> failures. Otherwise the final
  state is the one after ten failures, with the token count unchanged. The loop returns
  in both cases, and the loop over the documents goes on with the next document from
  the state it returns.
\<close>

theorem C2_retry_bound:
  assumes fail: "\<And>i s. i < N \<Longrightarrow> i < 10 \<Longrightarrow> isl (fst (process_tei url c cfg (W url i) s))"
      and ok: "\<And>s. N < 10 \<Longrightarrow> fst (process_tei url c cfg (W url N) s) = Inr True"
  shows "http_gets (attempts [0..<10] url c cfg (W url) st) = http_gets st @ replicate (min (Suc N) 10) url
       \<and> sleeps (attempts [0..<10] url c cfg (W url) st) = sleeps st @ replicate (min N 10) 5
       \<and> (suffix chapter_close (written st (attempts [0..<10] url c cfg (W url) st)) \<longleftrightarrow> N < 10)
       \<and> (N < 10 \<longrightarrow> attempts [0..<10] url c cfg (W url) st
              = snd (process_tei url c cfg (W url N) (failures [0..<N] url c cfg (W url) st)))
       \<and> (10 \<le> N \<longrightarrow> attempts [0..<10] url c cfg (W url) st = failures [0..<10] url c cfg (W url) st
              \<and> time_tokens (attempts [0..<10] url c cfg (W url) st) = time_tokens st)
       \<and> documents ((url, title) # docs) c cfg W st
           = documents docs c cfg W (attempts [0..<10] url c cfg (W url) st)"
proof (cases "N < 10")
  case True
  let ?sf = "failures [0..<N] url c cfg (W url) st"
  let ?r = "process_tei url c cfg (W url N) ?sf"
  let ?co = "chapter_open (c_id c) (replace ''.xml'' ''.html'' url)"
  have f: "\<And>i s. i \<in> set [0..<N] \<Longrightarrow> isl (fst (process_tei url c cfg (W url i) s))"
    using fail True by simp
  have "attempts [0..<10] url c cfg (W url) st = attempts (N # [Suc N..<10]) url c cfg (W url) ?sf"
    using attempts_append_fail[of "[0..<N]" url c cfg "W url" "N # [Suc N..<10]" st, OF f]
          upt_split_at[OF True] by simp
  then have fin: "attempts [0..<10] url c cfg (W url) st = snd ?r"
    using ok[OF True, of ?sf] by (simp add: Let_def)
  have g: "http_gets (snd ?r) = http_gets st @ replicate (Suc N) url"
    by (simp add: process_tei_gets failures_gets replicate_append_same)
  have sl: "sleeps (snd ?r) = sleeps st @ replicate N 5"
    by (simp add: process_tei_sleeps failures_sleeps)
  obtain k where k: "vertical_file ?sf = vertical_file st @ concat (replicate k ?co)"
    using failures_file[of "[0..<N]" url c cfg "W url" st, OF f] by blast
  obtain body where b: "vertical_file (snd ?r) = vertical_file ?sf @ ?co @ body @ chapter_close"
    using process_tei_ok_file[OF ok[OF True, of ?sf]] by blast
  have "written st (snd ?r) = (concat (replicate k ?co) @ ?co @ body) @ chapter_close"
    using k b by (simp add: written_def)
  then have w: "suffix chapter_close (written st (snd ?r))"
    unfolding suffix_def by blast
  show ?thesis using True fin g sl w by (simp add: min_def documents_def)
next
  case False
  let ?co = "chapter_open (c_id c) (replace ''.xml'' ''.html'' url)"
  have f: "\<And>i s. i \<in> set [0..<10] \<Longrightarrow> isl (fst (process_tei url c cfg (W url i) s))"
    using fail False by simp
  have fin: "attempts [0..<10] url c cfg (W url) st = failures [0..<10] url c cfg (W url) st"
    using attempts_all_fail[of "[0..<10]" url c cfg "W url" st, OF f] .
  obtain k where k: "vertical_file (failures [0..<10] url c cfg (W url) st)
                     = vertical_file st @ concat (replicate k ?co)"
    using failures_file[of "[0..<10]" url c cfg "W url" st, OF f] by blast
  have w: "\<not> suffix chapter_close (written st (failures [0..<10] url c cfg (W url) st))"
    using k chapter_close_not_suffix by (simp add: written_def)
  have t: "time_tokens (failures [0..<10] url c cfg (W url) st) = time_tokens st"
    using failures_stats[of "[0..<10]" url c cfg "W url" st, OF f] by blast
  show ?thesis
    using False fin w t by (simp add: failures_gets failures_sleeps min_def documents_def)
qed

theorem C2_retry_bound_witness:
  "sleeps (attempts [0..<10] ex_url ex_corpus ex_udp_cfg (ex_fails_then_ok 2) ex_state) = [5, 5]
   \<and> http_gets (attempts [0..<10] ex_url ex_corpus ex_udp_cfg (ex_fails_then_ok 2) ex_state)
       = [ex_url, ex_url, ex_url]
   \<and> suffix chapter_close
        (written ex_state (attempts [0..<10] ex_url ex_corpus ex_udp_cfg (ex_fails_then_ok 2) ex_state))
   \<and> length (sleeps (attempts [0..<10] ex_url ex_corpus ex_udp_cfg (ex_fails_then_ok 12) ex_state)) = 10
   \<and> length (http_gets (attempts [0..<10] ex_url ex_corpus ex_udp_cfg (ex_fails_then_ok 12) ex_state)) = 10
   \<and> \<not> suffix chapter_close
        (written ex_state (attempts [0..<10] ex_url ex_corpus ex_udp_cfg (ex_fails_then_ok 12) ex_state))
   \<and> vertical_file (create_vertical ex_corpus2 ex_udp_cfg ex_first_down ex_state)
       = doc_open ''https://e.org/'' @ chapter_open ''demo'' ''https://e.org/b.html''
         @ ex_body_written ''https://e.org/b.html'' @ chapter_close @ doc_close"
proof -
  have f2: "\<And>i s. i < 2 \<Longrightarrow> i < 10 \<Longrightarrow>
              isl (fst (process_tei ex_url ex_corpus ex_udp_cfg (ex_fails_then_ok 2 i) s))"
    by (simp add: ex_fails_then_ok_def ex_fetch_down_def process_tei_def Let_def)
  have ok2: "\<And>s. (2::nat) < 10 \<Longrightarrow>
              fst (process_tei ex_url ex_corpus ex_udp_cfg (ex_fails_then_ok 2 2) s) = Inr True"
    by (simp add: ex_fails_then_ok_def ex_ok_def process_tei_def Let_def annotate_def
          ex_udp_cfg_def run_udp_def ex_corpus_def)
  have f12: "\<And>i s. i < 12 \<Longrightarrow> i < 10 \<Longrightarrow>
              isl (fst (process_tei ex_url ex_corpus ex_udp_cfg (ex_fails_then_ok 12 i) s))"
    by (simp add: ex_fails_then_ok_def ex_fetch_down_def process_tei_def Let_def)
  have ok12: "\<And>s. (12::nat) < 10 \<Longrightarrow>
              fst (process_tei ex_url ex_corpus ex_udp_cfg (ex_fails_then_ok 12 12) s) = Inr True"
    by simp
  note a = C2_retry_bound[of 2 ex_url ex_corpus ex_udp_cfg "\<lambda>u. ex_fails_then_ok 2" ex_state,
             OF f2 ok2]
  note b = C2_retry_bound[of 12 ex_url ex_corpus ex_udp_cfg "\<lambda>u. ex_fails_then_ok 12" ex_state,
             OF f12 ok12]
  have g: "http_gets ex_state = []" "sleeps ex_state = []" by (simp_all add: ex_state_def)
  have r: "replicate (min (Suc 2) 10) ex_url = [ex_url, ex_url, ex_url]"
          "replicate (min 2 10) (5::nat) = [5, 5]"
          "length (replicate (min 12 10) (5::nat)) = 10"
          "length (replicate (min (Suc 12) 10) ex_url) = 10"
    by (simp_all add: eval_nat_numeral)
  have cv: "vertical_file (create_vertical ex_corpus2 ex_udp_cfg ex_first_down ex_state)
       = doc_open ''https://e.org/'' @ chapter_open ''demo'' ''https://e.org/b.html''
         @ ex_body_written ''https://e.org/b.html'' @ chapter_close @ doc_close"
    by code_simp
  show ?thesis
    using a[THEN conjunct1] a[THEN conjunct2, THEN conjunct1]
          a[THEN conjunct2, THEN conjunct2, THEN conjunct1]
          b[THEN conjunct1] b[THEN conjunct2, THEN conjunct1]
          b[THEN conjunct2, THEN conjunct2, THEN conjunct1] cv
    unfolding g r by simp
qed

section \<open>Replacement and lines\<close>

text \<open>
  In a text of lines none of which has \<open>a\<close> as a proper suffix, an occurrence of the two
  lines \<open>a\<close> and \<open>b\<close> starts at the start of a line. Replacing the occurrences by the
  empty string, from the left, is then the deletion \<open>rm a b\<close> on the list of lines.
\<close>

lemma replace_at_match: "old \<noteq> [] \<Longrightarrow> replace old new (old @ r) = new @ replace old new r"
  by (cases old) simp_all

lemma replace_no_match:
  "old \<noteq> [] \<Longrightarrow> \<not> prefix old (c # cs) \<Longrightarrow> replace old new (c # cs) = c # replace old new cs"
  by simp

lemma first_line_eq:
  assumes "NL \<notin> set u" "NL \<notin> set v" "u @ NL # r = v @ NL # t"
  shows "u = v \<and> r = t"
proof -
  have tw: "\<And>w z. NL \<notin> set w \<Longrightarrow> takeWhile (\<lambda>c. c \<noteq> NL) (w @ NL # z) = w"
    subgoal for w z by (induction w) auto
    done
  have "takeWhile (\<lambda>c. c \<noteq> NL) (u @ NL # r) = u" using assms(1) by (rule tw)
  moreover have "takeWhile (\<lambda>c. c \<noteq> NL) (v @ NL # t) = v" using assms(2) by (rule tw)
  ultimately have "u = v" using assms(3) by simp
  then show ?thesis using assms(3) by simp
qed

lemma prefix_line:
  assumes "NL \<notin> set a" "NL \<notin> set v" "prefix (a @ NL # t) (v @ NL # r)"
  shows "a = v \<and> prefix t r"
proof -
  from assms(3) obtain z where "v @ NL # r = (a @ NL # t) @ z" by (auto simp: prefix_def)
  then have "v @ NL # r = a @ NL # (t @ z)" by simp
  then have "v = a \<and> r = t @ z" using first_line_eq[OF assms(2) assms(1)] by blast
  then show ?thesis by auto
qed

lemma replace_keep_line:
  assumes "a \<noteq> []" "NL \<notin> set a" "NL \<notin> set v" "\<And>k. drop k v \<noteq> a"
  shows "replace (a @ NL # t) [] (v @ NL # r) = v @ NL # replace (a @ NL # t) [] r"
  using assms(3,4)
proof (induction v)
  case Nil
  have "\<not> prefix (a @ NL # t) (NL # r)" using assms(1,2) by (cases a) auto
  then show ?case by simp
next
  case (Cons c v)
  have "\<not> prefix (a @ NL # t) ((c # v) @ NL # r)"
    using prefix_line[OF assms(2) Cons.prems(1)] Cons.prems(2)[of 0] by auto
  moreover have "\<And>k. drop k v \<noteq> a" using Cons.prems(2)[of "Suc k" for k] by simp
  ultimately show ?case using Cons.IH Cons.prems(1) by simp
qed

lemma replace_line:
  assumes "a \<noteq> []" "NL \<notin> set a" "NL \<notin> set x" "no_proper_suffix a x"
      and nm: "\<not> (x = a \<and> prefix t r)"
  shows "replace (a @ NL # t) [] (x @ NL # r) = x @ NL # replace (a @ NL # t) [] r"
proof (cases "x = a")
  case False
  then have "\<And>k. drop k x \<noteq> a" using assms(4) unfolding no_proper_suffix_def
    by (metis drop0 gr0I)
  then show ?thesis using replace_keep_line[OF assms(1,2,3)] by blast
next
  case True
  then obtain c v where x: "x = c # v" using assms(1) by (cases x) auto
  have np: "\<not> prefix (a @ NL # t) (x @ NL # r)"
    using prefix_line[OF assms(2,3)] nm True by blast
  have "\<And>k. drop k v \<noteq> a" using assms(4) x unfolding no_proper_suffix_def
    by (metis drop_Suc_Cons zero_less_Suc)
  moreover have "NL \<notin> set v" using assms(3) x by simp
  ultimately have "replace (a @ NL # t) [] (v @ NL # r) = v @ NL # replace (a @ NL # t) [] r"
    using replace_keep_line[OF assms(1,2)] by blast
  then show ?thesis using np x by simp
qed

lemma prefix_unlines:
  "NL \<notin> set b \<Longrightarrow> list_all (\<lambda>l. NL \<notin> set l) ls \<Longrightarrow>
   prefix (b @ [NL]) (unlines ls) \<longleftrightarrow> (ls \<noteq> [] \<and> hd ls = b)"
proof (cases ls)
  case Nil
  then show ?thesis by (simp add: unlines_def)
next
  case (Cons y zs)
  assume b: "NL \<notin> set b" and "list_all (\<lambda>l. NL \<notin> set l) ls"
  then have y: "NL \<notin> set y" using Cons by simp
  have "prefix (b @ NL # []) (y @ NL # unlines zs) \<longleftrightarrow> b = y"
    using prefix_line[OF b y, of "[]" "unlines zs"] by auto
  then show ?thesis using Cons by (auto simp: unlines_def)
qed

lemma replace_unlines:
  assumes a: "a \<noteq> []" "NL \<notin> set a" "NL \<notin> set b"
  shows "list_all (\<lambda>l. NL \<notin> set l \<and> no_proper_suffix a l) ls \<Longrightarrow>
         replace (a @ NL # b @ [NL]) [] (unlines ls) = unlines (rm a b ls)"
proof (induction ls rule: induct_list012)
  case 1
  then show ?case using a(1) by (simp add: unlines_def)
next
  case (2 x)
  then have x: "NL \<notin> set x" "no_proper_suffix a x" by simp_all
  have "replace (a @ NL # b @ [NL]) [] (x @ NL # []) = x @ NL # replace (a @ NL # b @ [NL]) [] []"
    using replace_line[OF a(1,2) x, of "b @ [NL]" "[]"] by simp
  then show ?case using a(1) by (simp add: unlines_def)
next
  case (3 x y zs)
  then have x: "NL \<notin> set x" "no_proper_suffix a x"
    and rest: "list_all (\<lambda>l. NL \<notin> set l \<and> no_proper_suffix a l) (y # zs)"
    and rest2: "list_all (\<lambda>l. NL \<notin> set l \<and> no_proper_suffix a l) zs"
    by simp_all
  have nf: "list_all (\<lambda>l. NL \<notin> set l) (y # zs)"
    using rest by (simp add: list_all_iff)
  have u: "unlines (x # y # zs) = x @ NL # unlines (y # zs)" by (simp add: unlines_def)
  show ?case
  proof (cases "x = a \<and> y = b")
    case True
    then have "unlines (x # y # zs) = (a @ NL # b @ [NL]) @ unlines zs" by (simp add: unlines_def)
    then have "replace (a @ NL # b @ [NL]) [] (unlines (x # y # zs))
               = replace (a @ NL # b @ [NL]) [] (unlines zs)"
      using replace_at_match[of "a @ NL # b @ [NL]" "[]" "unlines zs"] by simp
    then show ?thesis using True "3.IH"(1)[OF rest2] by simp
  next
    case False
    then have "\<not> (x = a \<and> prefix (b @ [NL]) (unlines (y # zs)))"
      using prefix_unlines[OF a(3) nf] by simp
    then have "replace (a @ NL # b @ [NL]) [] (x @ NL # unlines (y # zs))
               = x @ NL # replace (a @ NL # b @ [NL]) [] (unlines (y # zs))"
      using replace_line[OF a(1,2) x] by blast
    then have "replace (a @ NL # b @ [NL]) [] (unlines (x # y # zs))
               = x @ NL # unlines (rm a b (y # zs))"
      using u "3.IH"(2)[OF rest] by simp
    also have "\<dots> = unlines (x # rm a b (y # zs))" by (simp add: unlines_def)
    also have "\<dots> = unlines (rm a b (x # y # zs))" using False by auto
    finally show ?thesis .
  qed
qed

section \<open>Deleting empty elements line by line\<close>

text \<open>
  Let the neighbours in a list be related by \<open>F\<close>, and let \<open>F'\<close> contain \<open>F\<close> and every
  pair that arises when a deleted pair is jumped over. After the deletion the neighbours
  are related by \<open>F'\<close>; and when \<open>a\<close> can never follow \<open>a\<close>, no line \<open>a\<close> directly
  before a line \<open>b\<close> is left.
\<close>

lemma rm_keep: "y \<noteq> a \<Longrightarrow> rm a b (y # zs) = y # rm a b zs"
  by (cases zs) auto

lemma rm_successively_aux:
  assumes sub: "\<And>x y. F x y \<Longrightarrow> F' x y"
      and clos: "\<And>c d. F' c a \<Longrightarrow> F b d \<Longrightarrow> F' c d"
      and naa: "\<not> F' a a"
  shows "successively F L \<Longrightarrow>
         successively (\<lambda>x y. F' x y \<and> \<not> (x = a \<and> y = b)) (rm a b L)
         \<and> (\<forall>c. c \<noteq> a \<and> L \<noteq> [] \<and> F' c (hd L) \<and> rm a b L \<noteq> [] \<longrightarrow> F' c (hd (rm a b L)))"
proof (induction L rule: induct_list012)
  case 1
  then show ?case by simp
next
  case (2 x)
  then show ?case by simp
next
  case (3 x y zs)
  have sy: "successively F (y # zs)" and sz: "successively F zs" and fxy: "F x y"
    using "3.prems" by (auto simp: successively_Cons)
  note IHz = "3.IH"(1)[OF sz] and IHy = "3.IH"(2)[OF sy]
  show ?case
  proof (cases "x = a \<and> y = b")
    case True
    have "F' c (hd (rm a b zs))" if "c \<noteq> a" "F' c a" "rm a b zs \<noteq> []" for c
    proof -
      from that(3) have ne: "zs \<noteq> []" by auto
      then have "F b (hd zs)" using sy True by (cases zs) auto
      then have "F' c (hd zs)" using clos that(2) by blast
      then show ?thesis using IHz that(1,3) ne by blast
    qed
    then show ?thesis using True IHz by auto
  next
    case False
    have r: "rm a b (x # y # zs) = x # rm a b (y # zs)" using False by auto
    have ne: "rm a b (y # zs) \<noteq> [] \<Longrightarrow> F' x (hd (rm a b (y # zs))) \<and> \<not> (x = a \<and> hd (rm a b (y # zs)) = b)"
    proof (cases "x = a")
      case True
      then have "y \<noteq> a" using fxy sub naa by blast
      then have "rm a b (y # zs) = y # rm a b zs" by (rule rm_keep)
      then show ?thesis using True False fxy sub by auto
    next
      case F2: False
      assume "rm a b (y # zs) \<noteq> []"
      then show ?thesis using IHy F2 fxy sub by auto
    qed
    have "successively (\<lambda>x y. F' x y \<and> \<not> (x = a \<and> y = b)) (x # rm a b (y # zs))"
      using ne IHy by (auto simp: successively_Cons)
    then show ?thesis using r by simp
  qed
qed

lemma rm_subset: "set (rm a b L) \<subseteq> set L"
  by (induction L rule: induct_list012) auto

section \<open>The lines of the two formatters\<close>

text \<open>
  Both formatters write their text line by line: every round of their loops adds a chunk
  of regular lines to the lines of an open sentence, in the order \<open>follows_raw\<close>, and
  the lines \<open><p>\<close> among them are counted. The post-processing deletes the empty
  sentences, then the empty paragraphs, and the order of the lines that are left has
  neither.
\<close>

lemma kind_tags [simp]:
  "kind ''<p>'' = KP" "kind ''<s>'' = KS" "kind ''</s>'' = KCS" "kind ''</p>'' = KCP"
  "kind ''<g/>'' = KX"
  by (simp_all add: kind_def)

lemma kind_tab: "TAB \<in> set l \<Longrightarrow> kind l = KX"
  by (auto simp: kind_def)

lemma no_proper_suffix_last:
  "a \<noteq> [] \<Longrightarrow> x \<noteq> [] \<Longrightarrow> last x \<noteq> last a \<Longrightarrow> no_proper_suffix a x"
  unfolding no_proper_suffix_def
proof (intro allI impI notI)
  fix k assume a: "a \<noteq> []" "x \<noteq> []" "last x \<noteq> last a" "drop k x = a"
  then have "k < length x" by (metis drop_all not_le_imp_less)
  then have "last (drop k x) = last x" by simp
  then show False using a by simp
qed

lemma ok_tags:
  "ok_line ''<p>''" "ok_line ''<s>''" "ok_line ''</s>''" "ok_line ''</p>''" "ok_line ''<g/>''"
  by (auto simp: ok_line_def no_proper_suffix_def drop_Cons' PAR_SEP_def)

lemma split_chr_nonempty: "split_chr sep s \<noteq> []"
  by (induction s) (auto split: list.splits)

lemma split_chr_parts: "p \<in> set (split_chr sep s) \<Longrightarrow> set p \<subseteq> set s \<and> sep \<notin> set p"
proof (induction s arbitrary: p)
  case Nil
  then show ?case by simp
next
  case (Cons c cs)
  show ?case
  proof (cases "c = sep")
    case True
    then show ?thesis using Cons by auto
  next
    case False
    obtain q qs where q: "split_chr sep cs = q # qs" using split_chr_nonempty[of sep cs] by (cases "split_chr sep cs") auto
    then have "split_chr sep (c # cs) = (c # q) # qs" using False by simp
    then have "p = c # q \<or> p \<in> set qs" using Cons.prems by simp
    then show ?thesis using Cons.IH[of q] Cons.IH[of p] q False by auto
  qed
qed

lemma split_chr_line: "sep \<notin> set x \<Longrightarrow> split_chr sep (x @ sep # r) = x # split_chr sep r"
  using split_chr_nonempty[of sep] by (induction x) (auto split: list.splits)

lemma ok_token_line:
  assumes "NL \<notin> set f" "TAB \<notin> set f" "f \<noteq> PAR_SEP" "NL \<notin> set g"
          "NL \<notin> set url" "CHR ''>'' \<notin> set url"
  shows "ok_line (f @ TAB # g @ TAB # url)"
proof -
  have "last ((f @ TAB # g) @ TAB # url) \<noteq> CHR ''>''"
    using assms(6) by (cases url rule: rev_cases) auto
  then have l: "last (f @ TAB # g @ TAB # url) \<noteq> CHR ''>''" by simp
  have "no_proper_suffix ''<s>'' (f @ TAB # g @ TAB # url)"
       "no_proper_suffix ''<p>'' (f @ TAB # g @ TAB # url)"
    using l by (auto intro!: no_proper_suffix_last)
  moreover have "hd (split_chr TAB (f @ TAB # g @ TAB # url)) = f"
    using split_chr_line[OF assms(2)] by simp
  ultimately show ?thesis using assms by (simp add: ok_line_def)
qed

lemma inside_append: "inside ls \<Longrightarrow> chunk c \<Longrightarrow> inside (ls @ c)"
  unfolding inside_def chunk_def
  by (cases "c = []") (auto simp: successively_append_iff)

lemma chunk_append: "chunk c \<Longrightarrow> chunk d \<Longrightarrow> chunk (c @ d)"
  unfolding chunk_def
  by (cases "c = []"; cases "d = []") (auto simp: successively_append_iff)

lemma chunk_par_break: "chunk [''</s>'', ''</p>'', ''<p>'', ''<s>'']"
  by (simp add: chunk_def ok_tags)

lemma chunk_sent_break: "chunk [''</s>'', ''<s>'']"
  by (simp add: chunk_def ok_tags)

lemma chunk_glue: "chunk [''<g/>'']"
  by (simp add: chunk_def ok_tags)

lemma chunk_token:
  assumes "NL \<notin> set f" "TAB \<notin> set f" "f \<noteq> PAR_SEP" "NL \<notin> set g"
          "NL \<notin> set url" "CHR ''>'' \<notin> set url"
  shows "chunk [f @ TAB # g @ TAB # url]"
  using ok_token_line[OF assms] by (simp add: chunk_def kind_tab)

lemma inside_open: "inside [''<p>'', ''<s>'']"
  by (simp add: inside_def ok_tags)

lemma inside_close:
  "inside ls \<Longrightarrow> successively raw_order (ls @ [''</s>'', ''</p>''])
                 \<and> list_all ok_line (ls @ [''</s>'', ''</p>''])"
  unfolding inside_def by (auto simp: successively_append_iff ok_tags)

lemma unlines_append: "unlines (xs @ ys) = unlines xs @ unlines ys"
  by (simp add: unlines_def)

lemma open_par_lines: "open_par = unlines [''<p>'', ''<s>'']"
  by (simp add: open_par_def unlines_def)

lemma close_par_lines: "close_par = unlines [''</s>'', ''</p>'']"
  by (simp add: close_par_def unlines_def)

lemma par_break_lines: "par_break = unlines [''</s>'', ''</p>'', ''<p>'', ''<s>'']"
  by (simp add: par_break_def unlines_def)

lemma sent_break_lines: "sent_break = unlines [''</s>'', ''<s>'']"
  by (simp add: sent_break_def unlines_def)

lemma glue_lines: "glue = unlines [''<g/>'']"
  by (simp add: glue_def unlines_def)

lemma nth_split_chr:
  "i < length (split_chr sep s) \<Longrightarrow> set (split_chr sep s ! i) \<subseteq> set s"
  using split_chr_parts[of "split_chr sep s ! i" sep s] by simp

lemma tab_not_p: "TAB \<in> set l \<Longrightarrow> l \<noteq> ''<p>''"
  by auto

lemma udp_line_record:
  "udp_line sfx line =
     (case udp_record line of
        None \<Rightarrow> []
      | Some parts \<Rightarrow>
          if parts ! 1 = PAR_SEP then par_break
          else parts ! 1 @ TAB # parts ! 2 @ TAB # parts ! 3 @ sfx @ NL
               # (if contains (parts ! 9) ''SpaceAfter=No'' then glue else []))"
  by (simp add: udp_line_def udp_record_def Let_def)

lemma udp_record_fields:
  "udp_record line = Some parts \<Longrightarrow>
   10 \<le> length parts \<and> (\<forall>i<length parts. set (parts ! i) \<subseteq> set line \<and> TAB \<notin> set (parts ! i))"
  using split_chr_parts[of _ TAB line]
  by (auto simp: udp_record_def split: if_splits)

lemma udp_line_chunk:
  assumes l: "NL \<notin> set line" and u: "NL \<notin> set url" "CHR ''>'' \<notin> set url"
  shows "\<exists>c. udp_line (TAB # url) line = unlines c \<and> chunk c
             \<and> count_list c ''<p>'' = (if udp_sentinel line then 1 else 0)"
proof (cases "udp_record line")
  case None
  then have "udp_line (TAB # url) line = unlines []" by (simp add: udp_line_record unlines_def)
  moreover have "chunk []" by (simp add: chunk_def)
  moreover have "\<not> udp_sentinel line" using None by (simp add: udp_sentinel_def)
  ultimately show ?thesis by (intro exI[of _ "[]"]) simp
next
  case (Some parts)
  show ?thesis
  proof (cases "parts ! 1 = PAR_SEP")
    case True
    then have "udp_line (TAB # url) line = unlines [''</s>'', ''</p>'', ''<p>'', ''<s>'']"
      using Some by (simp add: udp_line_record par_break_lines)
    moreover have "udp_sentinel line" using Some True by (simp add: udp_sentinel_def)
    ultimately show ?thesis
      using chunk_par_break by (intro exI[of _ "[''</s>'', ''</p>'', ''<p>'', ''<s>'']"]) simp
  next
    case False
    let ?g = "parts ! 2 @ TAB # parts ! 3"
    let ?c = "[parts ! 1 @ TAB # ?g @ TAB # url]
              @ (if contains (parts ! 9) ''SpaceAfter=No'' then [''<g/>''] else [])"
    have f: "set (parts ! 1) \<subseteq> set line" "set (parts ! 2) \<subseteq> set line"
            "set (parts ! 3) \<subseteq> set line" "TAB \<notin> set (parts ! 1)"
      using udp_record_fields[OF Some] by auto
    then have "NL \<notin> set (parts ! 1)" "NL \<notin> set ?g" using l by auto
    then have t: "chunk [parts ! 1 @ TAB # ?g @ TAB # url]"
      using chunk_token[OF _ f(4) False _ u] by blast
    moreover have "chunk (if contains (parts ! 9) ''SpaceAfter=No'' then [''<g/>''] else [])"
      using chunk_glue by (simp add: chunk_def)
    ultimately have "chunk ?c" by (rule chunk_append)
    moreover have "udp_line (TAB # url) line = unlines ?c"
      using Some False by (simp add: udp_line_record unlines_def glue_def)
    moreover have "TAB \<in> set (parts ! 1 @ TAB # ?g @ TAB # url)" by simp
    then have "parts ! 1 @ TAB # ?g @ TAB # url \<noteq> ''<p>''" by (rule tab_not_p)
    then have "count_list ?c ''<p>'' = 0" by simp
    moreover have "\<not> udp_sentinel line" using Some False by (simp add: udp_sentinel_def)
    ultimately show ?thesis by (intro exI[of _ ?c]) simp
  qed
qed

lemma udp_fold_inside:
  assumes u: "NL \<notin> set url" "CHR ''>'' \<notin> set url"
  shows "list_all (\<lambda>l. NL \<notin> set l) lines \<Longrightarrow> inside ls \<Longrightarrow>
         \<exists>ls'. foldl (\<lambda>vertical line. vertical @ udp_line (TAB # url) line) (unlines ls) lines
                = unlines ls' \<and> inside ls'
                \<and> count_list ls' ''<p>'' = count_list ls ''<p>'' + length (filter udp_sentinel lines)"
proof (induction lines arbitrary: ls)
  case Nil
  then show ?case by auto
next
  case (Cons line lines)
  then have "NL \<notin> set line" by simp
  then obtain c where c: "udp_line (TAB # url) line = unlines c" "chunk c"
      "count_list c ''<p>'' = (if udp_sentinel line then 1 else 0)"
    using udp_line_chunk u by blast
  then have i: "inside (ls @ c)" using Cons.prems(2) inside_append by blast
  have "list_all (\<lambda>l. NL \<notin> set l) lines" using Cons.prems(1) by simp
  then obtain ls' where
    "foldl (\<lambda>vertical line. vertical @ udp_line (TAB # url) line) (unlines (ls @ c)) lines
       = unlines ls'" "inside ls'"
    "count_list ls' ''<p>'' = count_list (ls @ c) ''<p>'' + length (filter udp_sentinel lines)"
    using Cons.IH[OF _ i] by blast
  then show ?case using c by (intro exI[of _ ls']) (simp add: unlines_append)
qed

lemma split_chr_free: "list_all (\<lambda>l. sep \<notin> set l) (split_chr sep s)"
  using split_chr_parts[of _ sep s] by (auto simp: list_all_iff)

lemma udp_vertical_lines:
  assumes u: "NL \<notin> set url" "CHR ''>'' \<notin> set url"
  shows "\<exists>L. udp_vertical result (TAB # url) = unlines L
             \<and> successively raw_order L \<and> list_all ok_line L
             \<and> count_list L ''<p>'' = 1 + length (filter udp_sentinel (split_chr NL result))"
proof -
  obtain ls where ls: "foldl (\<lambda>vertical line. vertical @ udp_line (TAB # url) line)
                         (unlines [''<p>'', ''<s>'']) (split_chr NL result) = unlines ls"
                  "inside ls"
                  "count_list ls ''<p>'' = count_list [''<p>'', ''<s>''] ''<p>''
                      + length (filter udp_sentinel (split_chr NL result))"
    using udp_fold_inside[OF u split_chr_free inside_open] by blast
  have "udp_vertical result (TAB # url) = unlines (ls @ [''</s>'', ''</p>''])"
    using ls(1) by (simp add: udp_vertical_def open_par_lines close_par_lines unlines_append)
  moreover have "count_list (ls @ [''</s>'', ''</p>'']) ''<p>''
                 = 1 + length (filter udp_sentinel (split_chr NL result))"
    using ls(3) by simp
  ultimately show ?thesis using inside_close[OF ls(2)] by blast
qed

lemma spacy_token_chunk:
  assumes u: "NL \<notin> set url" "CHR ''>'' \<notin> set url" and t: "tok_ok tok"
  shows "\<exists>c. fst (spacy_token (TAB # url) (v, sent, tx) tok) = v @ unlines c \<and> chunk c
             \<and> count_list c ''<p>'' = (if spacy_sentinel tok then 1 else 0)"
proof (cases "tok_is_space tok")
  case True
  then have "fst (spacy_token (TAB # url) (v, sent, tx) tok) = v @ unlines []"
    by (simp add: spacy_token_def unlines_def)
  moreover have "chunk []" by (simp add: chunk_def)
  moreover have "\<not> spacy_sentinel tok" using True by (simp add: spacy_sentinel_def)
  ultimately show ?thesis by (intro exI[of _ "[]"]) simp
next
  case False
  let ?sent1 = "case sent of None \<Rightarrow> tok_sent tok | Some s \<Rightarrow> s"
  let ?c1 = "if ?sent1 \<noteq> tok_sent tok then [''</s>'', ''<s>''] else []"
  let ?c2 = "if \<not> match_space tx \<and> tok_is_punct tok then [''<g/>''] else []"
  let ?g = "(if \<not> tok_is_punct tok then tok_lemma tok else tok_text tok) @ TAB # tok_pos tok"
  let ?line = "tok_text tok @ TAB # ?g @ TAB # url"
  let ?c3 = "if tok_text tok = PAR_SEP then [''</s>'', ''</p>'', ''<p>'', ''<s>''] else [?line]"
  have n: "NL \<notin> set (tok_text tok)" "TAB \<notin> set (tok_text tok)" "NL \<notin> set ?g"
    using t False by (auto simp: tok_ok_def)
  have "tok_text tok \<noteq> PAR_SEP \<Longrightarrow> chunk [?line]"
    using chunk_token[OF n(1,2) _ n(3) u] by blast
  then have c3: "chunk ?c3" using chunk_par_break by simp
  have c1: "chunk ?c1" using chunk_sent_break by (simp add: chunk_def)
  have c2: "chunk ?c2" using chunk_glue by (simp add: chunk_def)
  have "chunk (?c1 @ ?c2 @ ?c3)" using c1 c2 c3 chunk_append by blast
  moreover have "fst (spacy_token (TAB # url) (v, sent, tx) tok) = v @ unlines (?c1 @ ?c2 @ ?c3)"
    using False
    by (simp add: spacy_token_def Let_def unlines_def sent_break_def glue_def par_break_def)
  moreover have "TAB \<in> set ?line" by simp
  then have "?line \<noteq> ''<p>''" by (rule tab_not_p)
  then have "count_list (?c1 @ ?c2 @ ?c3) ''<p>'' = (if spacy_sentinel tok then 1 else 0)"
    using False by (simp add: spacy_sentinel_def)
  ultimately show ?thesis by (intro exI[of _ "?c1 @ ?c2 @ ?c3"]) simp
qed

lemma spacy_fold_inside:
  assumes u: "NL \<notin> set url" "CHR ''>'' \<notin> set url"
  shows "list_all tok_ok doc \<Longrightarrow> inside ls \<Longrightarrow>
         \<exists>ls'. fst (foldl (spacy_token (TAB # url)) (unlines ls, sent, tx) doc) = unlines ls'
                \<and> inside ls'
                \<and> count_list ls' ''<p>'' = count_list ls ''<p>'' + length (filter spacy_sentinel doc)"
proof (induction doc arbitrary: ls sent tx)
  case Nil
  then show ?case by auto
next
  case (Cons tok doc)
  then have t: "tok_ok tok" by simp
  obtain v' s' t' where st: "spacy_token (TAB # url) (unlines ls, sent, tx) tok = (v', s', t')"
    by (cases "spacy_token (TAB # url) (unlines ls, sent, tx) tok") auto
  obtain c where c: "v' = unlines ls @ unlines c" "chunk c"
      "count_list c ''<p>'' = (if spacy_sentinel tok then 1 else 0)"
    using spacy_token_chunk[OF u t, of "unlines ls" sent tx] st by auto
  then have i: "inside (ls @ c)" using Cons.prems(2) inside_append by blast
  have "list_all tok_ok doc" using Cons.prems(1) by simp
  then obtain ls' where
    "fst (foldl (spacy_token (TAB # url)) (unlines (ls @ c), s', t') doc) = unlines ls'"
    "inside ls'"
    "count_list ls' ''<p>'' = count_list (ls @ c) ''<p>'' + length (filter spacy_sentinel doc)"
    using Cons.IH[OF _ i] by blast
  then show ?case using st c by (intro exI[of _ ls']) (simp add: unlines_append)
qed

lemma spacy_vertical_lines:
  assumes u: "NL \<notin> set url" "CHR ''>'' \<notin> set url" and d: "list_all tok_ok doc"
  shows "\<exists>L. spacy_vertical doc tx (TAB # url) = unlines L
             \<and> successively raw_order L \<and> list_all ok_line L
             \<and> count_list L ''<p>'' = 1 + length (filter spacy_sentinel doc)"
proof -
  obtain ls where ls: "fst (foldl (spacy_token (TAB # url)) (unlines [''<p>'', ''<s>''], None, tx) doc)
                       = unlines ls" "inside ls"
                  "count_list ls ''<p>'' = count_list [''<p>'', ''<s>''] ''<p>''
                      + length (filter spacy_sentinel doc)"
    using spacy_fold_inside[OF u d inside_open] by blast
  have "spacy_vertical doc tx (TAB # url) = unlines (ls @ [''</s>'', ''</p>''])"
    using ls(1) by (simp add: spacy_vertical_def open_par_lines close_par_lines unlines_append)
  moreover have "count_list (ls @ [''</s>'', ''</p>'']) ''<p>''
                 = 1 + length (filter spacy_sentinel doc)"
    using ls(3) by simp
  ultimately show ?thesis using inside_close[OF ls(2)] by blast
qed

lemma kind_eq:
  "kind x = KS \<longleftrightarrow> x = ''<s>''" "kind x = KCS \<longleftrightarrow> x = ''</s>''"
  "kind x = KP \<longleftrightarrow> x = ''<p>''" "kind x = KCP \<longleftrightarrow> x = ''</p>''"
  by (auto simp: kind_def)

lemma follows_raw_mid: "follows_raw k k' \<Longrightarrow> follows_mid k k'"
  by (cases k) auto

lemma follows_mid_closed: "follows_mid k KS \<Longrightarrow> follows_raw KCS k' \<Longrightarrow> follows_mid k k'"
  by (cases k) auto

lemma follows_fin_closed: "follows_fin k KP \<Longrightarrow> follows_fin KCP k' \<Longrightarrow> follows_fin k k'"
  by (cases k) auto

lemma postprocess_lines:
  assumes s: "successively raw_order L" and ok: "list_all ok_line L"
  shows "\<exists>L'. postprocess (unlines L) = unlines L' \<and> set L' \<subseteq> set L \<and> no_empty_element L'"
proof -
  let ?L1 = "rm ''<s>'' ''</s>'' L"
  let ?L2 = "rm ''<p>'' ''</p>'' ?L1"
  have ok1: "list_all (\<lambda>l. NL \<notin> set l \<and> no_proper_suffix ''<s>'' l) L"
    using ok by (simp add: list_all_iff ok_line_def)
  have ok2: "list_all (\<lambda>l. NL \<notin> set l \<and> no_proper_suffix ''<p>'' l) ?L1"
    using ok rm_subset[of "''<s>''" "''</s>''" L] by (auto simp: list_all_iff ok_line_def)
  have r1: "replace (''<s>'' @ NL # ''</s>'' @ [NL]) [] (unlines L) = unlines ?L1"
    by (rule replace_unlines[OF _ _ _ ok1]) simp_all
  have r2: "replace (''<p>'' @ NL # ''</p>'' @ [NL]) [] (unlines ?L1) = unlines ?L2"
    by (rule replace_unlines[OF _ _ _ ok2]) simp_all
  have pp: "postprocess (unlines L) = unlines ?L2"
    using r1 r2 by (simp add: postprocess_def)
  have m1: "successively (\<lambda>x y. follows_mid (kind x) (kind y) \<and> \<not> (x = ''<s>'' \<and> y = ''</s>'')) ?L1"
    using rm_successively_aux[of raw_order "\<lambda>x y. follows_mid (kind x) (kind y)" "''<s>''" "''</s>''" L]
          s follows_raw_mid follows_mid_closed by simp
  have f1: "successively (\<lambda>x y. follows_fin (kind x) (kind y)) ?L1"
  proof (rule successively_mono[OF m1])
    fix x y assume "follows_mid (kind x) (kind y) \<and> \<not> (x = ''<s>'' \<and> y = ''</s>'')"
    then show "follows_fin (kind x) (kind y)"
      using kind_eq(1)[of x] kind_eq(2)[of y] by (cases "kind x") auto
  qed
  have m2: "successively (\<lambda>x y. follows_fin (kind x) (kind y) \<and> \<not> (x = ''<p>'' \<and> y = ''</p>'')) ?L2"
    using rm_successively_aux[of "\<lambda>x y. follows_fin (kind x) (kind y)"
             "\<lambda>x y. follows_fin (kind x) (kind y)" "''<p>''" "''</p>''" ?L1]
          f1 follows_fin_closed by simp
  have "no_empty_element ?L2"
    unfolding no_empty_element_def
  proof (rule successively_mono[OF m2])
    fix x y assume "follows_fin (kind x) (kind y) \<and> \<not> (x = ''<p>'' \<and> y = ''</p>'')"
    then show "\<not> (x = ''<s>'' \<and> y = ''</s>'') \<and> \<not> (x = ''<p>'' \<and> y = ''</p>'')" by auto
  qed
  moreover have "set ?L2 \<subseteq> set L"
    using rm_subset[of "''<p>''" "''</p>''" ?L1] rm_subset[of "''<s>''" "''</s>''" L] by blast
  ultimately show ?thesis using pp by blast
qed

lemma split_unlines:
  "list_all (\<lambda>l. NL \<notin> set l) L \<Longrightarrow> split_chr NL (unlines L) = L @ [[]]"
proof (induction L)
  case Nil
  then show ?case by (simp add: unlines_def)
next
  case (Cons x L)
  then have "split_chr NL (x @ NL # unlines L) = x # split_chr NL (unlines L)"
    using split_chr_line by simp
  then show ?case using Cons by (simp add: unlines_def)
qed

lemma final_lines:
  assumes s: "successively raw_order L" and ok: "list_all ok_line L"
  shows "no_empty_element (split_chr NL (postprocess (unlines L)))"
proof -
  obtain L' where L': "postprocess (unlines L) = unlines L'" "set L' \<subseteq> set L" "no_empty_element L'"
    using postprocess_lines[OF s ok] by blast
  have "list_all (\<lambda>l. NL \<notin> set l) L'" using L'(2) ok by (auto simp: list_all_iff ok_line_def)
  then have "split_chr NL (postprocess (unlines L)) = L' @ [[]]" using L'(1) split_unlines by simp
  moreover have "no_empty_element (L' @ [[]])"
    using L'(3) by (simp add: no_empty_element_def successively_append_iff)
  ultimately show ?thesis by simp
qed

text \<open>
  C6. For a landing page without newline and without \<open>>\<close>, every payload of the tagging
  service and every well-formed token stream of the in-process backend, whatever the
  places of the sentinels in it: among the lines of the post-processed chapter body, no
  line \<open><s>\<close> is directly followed by a line \<open></s>\<close> and no line \<open><p>\<close> by a line
  \<open></p>\<close>.
\<close>

theorem C6_no_empty_elements:
  assumes "NL \<notin> set url" "CHR ''>'' \<notin> set url" "list_all tok_ok doc"
  shows "no_empty_element (split_chr NL (postprocess (udp_vertical result (TAB # url))))
       \<and> no_empty_element (split_chr NL (postprocess (spacy_vertical doc tx (TAB # url))))"
proof -
  obtain L where "udp_vertical result (TAB # url) = unlines L" "successively raw_order L" "list_all ok_line L"
    using udp_vertical_lines[OF assms(1,2)] by blast
  then have a: "no_empty_element (split_chr NL (postprocess (udp_vertical result (TAB # url))))"
    using final_lines by simp
  obtain M where "spacy_vertical doc tx (TAB # url) = unlines M" "successively raw_order M" "list_all ok_line M"
    using spacy_vertical_lines[OF assms] by blast
  then have "no_empty_element (split_chr NL (postprocess (spacy_vertical doc tx (TAB # url))))"
    using final_lines by simp
  then show ?thesis using a by simp
qed

theorem C6_no_empty_elements_witness:
  "NL \<notin> set ex_html \<and> CHR ''>'' \<notin> set ex_html \<and> list_all tok_ok ex_tokens
   \<and> no_empty_element (split_chr NL (postprocess (udp_vertical ex_edge_payload (TAB # ex_html))))
   \<and> no_empty_element (split_chr NL (postprocess (spacy_vertical ex_tokens ex_text (TAB # ex_html))))
   \<and> postprocess (udp_vertical ex_edge_payload (TAB # ex_html))
      = unlines [''<p>'', ''<s>'', tabbed [''Foo'', ''foo'', ''NOUN'', ex_html], ''<g/>'', ''</s>'', ''</p>'',
                 ''<p>'', ''<s>'', tabbed [''bar'', ''bar'', ''NOUN'', ex_html], ''</s>'', ''</p>'']"
proof -
  have h1: "NL \<notin> set ex_html" by code_simp
  have h2: "CHR ''>'' \<notin> set ex_html" by code_simp
  have h3: "list_all tok_ok ex_tokens" by code_simp
  have v: "postprocess (udp_vertical ex_edge_payload (TAB # ex_html))
      = unlines [''<p>'', ''<s>'', tabbed [''Foo'', ''foo'', ''NOUN'', ex_html], ''<g/>'', ''</s>'', ''</p>'',
                 ''<p>'', ''<s>'', tabbed [''bar'', ''bar'', ''NOUN'', ex_html], ''</s>'', ''</p>'']"
    by code_simp
  show ?thesis
    using h1 h2 h3 v C6_no_empty_elements[OF h1 h2 h3, of ex_edge_payload ex_text] by blast
qed






section \<open>Glue markers\<close>

text \<open>
  The vertical of the remote backend is put together from what the lines of the payload
  add, and no such part starts with a glue marker. The loop of the in-process backend
  is followed with the text not yet consumed: it is the whitespace since the last token,
  and then the tokens to come.
\<close>

lemma foldl_append_concat: "foldl (\<lambda>v l. v @ f l) v0 ls = v0 @ concat (map f ls)"
  by (induction ls arbitrary: v0) simp_all

lemma udp_vertical_body:
  "udp_vertical result sfx = open_par @ udp_body sfx (split_chr NL result) @ close_par"
  by (simp add: udp_vertical_def udp_body_def foldl_append_concat)

lemma tab_not_glue: "TAB \<in> set l \<Longrightarrow> l \<noteq> ''<g/>''"
  by auto

lemma udp_line_first:
  assumes "NL \<notin> set line" "NL \<notin> set sfx"
  shows "udp_line sfx line = [] \<or> (\<exists>u r. udp_line sfx line = u @ NL # r \<and> NL \<notin> set u \<and> u \<noteq> ''<g/>'')"
proof (cases "udp_record line")
  case None
  then show ?thesis by (simp add: udp_line_record)
next
  case (Some parts)
  show ?thesis
  proof (cases "parts ! 1 = PAR_SEP")
    case True
    then have "udp_line sfx line = ''</s>'' @ NL # (''</p>'' @ [NL] @ ''<p>'' @ [NL] @ ''<s>'' @ [NL])"
      using Some by (simp add: udp_line_record par_break_def)
    moreover have "NL \<notin> set ''</s>''" "''</s>'' \<noteq> ''<g/>''" by simp_all
    ultimately show ?thesis by blast
  next
    case False
    let ?u = "parts ! 1 @ TAB # parts ! 2 @ TAB # parts ! 3 @ sfx"
    let ?r = "if contains (parts ! 9) ''SpaceAfter=No'' then glue else []"
    have "set (parts ! 1) \<subseteq> set line" "set (parts ! 2) \<subseteq> set line" "set (parts ! 3) \<subseteq> set line"
      using udp_record_fields[OF Some] by auto
    then have n: "NL \<notin> set ?u" using assms by auto
    have "TAB \<in> set ?u" by simp
    then have g: "?u \<noteq> ''<g/>''" by (rule tab_not_glue)
    have "udp_line sfx line = ?u @ NL # ?r" using Some False by (simp add: udp_line_record)
    then show ?thesis using n g by blast
  qed
qed

lemma not_glue_first:
  assumes "x = [] \<or> (\<exists>u r. x = u @ NL # r \<and> NL \<notin> set u \<and> u \<noteq> ''<g/>'')"
      and "\<not> prefix glue mre"
  shows "\<not> prefix glue (x @ mre)"
proof (cases "x = []")
  case True
  then show ?thesis using assms(2) by simp
next
  case False
  then obtain u r where x: "x = u @ NL # r" "NL \<notin> set u" "u \<noteq> ''<g/>''" using assms(1) by blast
  show ?thesis
  proof
    assume "prefix glue (x @ mre)"
    then have "prefix (''<g/>'' @ NL # []) (u @ NL # (r @ mre))" using x(1) by (simp add: glue_def)
    then have "''<g/>'' = u" using prefix_line[of "''<g/>''" u "[]" "r @ mre"] x(2) by simp
    then show False using x(3) by simp
  qed
qed

lemma no_glue_after:
  assumes "NL \<notin> set sfx"
  shows "list_all (\<lambda>l. NL \<notin> set l) ls \<Longrightarrow> \<not> prefix glue (udp_body sfx ls @ close_par)"
proof (induction ls)
  case Nil
  then show ?case by (simp add: udp_body_def glue_def close_par_def)
next
  case (Cons l ls)
  then have "NL \<notin> set l" and "\<not> prefix glue (udp_body sfx ls @ close_par)" by simp_all
  then show ?case
    using not_glue_first[OF udp_line_first[OF _ assms], of l "udp_body sfx ls @ close_par"]
    by (simp add: udp_body_def)
qed

lemma dropWhile_gap:
  "list_all isspace g \<Longrightarrow> xs \<noteq> [] \<Longrightarrow> \<not> isspace (hd xs) \<Longrightarrow> dropWhile isspace (g @ xs @ r) = xs @ r"
  by (cases xs) (auto simp: list_all_iff dropWhile_append2)

lemma match_space_gap:
  "list_all isspace g \<Longrightarrow> xs \<noteq> [] \<Longrightarrow> \<not> isspace (hd xs) \<Longrightarrow> match_space (g @ xs @ r) \<longleftrightarrow> g \<noteq> []"
  by (cases g; cases xs) (auto simp: match_space_def)

lemma spacy_fold_expected:
  "list_all tok_spaced doc \<Longrightarrow> list_all isspace g \<Longrightarrow>
   fst (foldl (spacy_token sfx) (v, sent, g @ concat (map (\<lambda>tok. tok_text tok @ tok_whitespace tok) doc)) doc)
   = v @ spacy_expected sfx sent (g \<noteq> []) doc"
proof (induction doc arbitrary: v sent g)
  case Nil
  then show ?case by simp
next
  case (Cons tok doc)
  let ?rest = "concat (map (\<lambda>tok. tok_text tok @ tok_whitespace tok) doc)"
  have d: "list_all tok_spaced doc" and t: "tok_spaced tok" using Cons.prems(1) by simp_all
  show ?case
  proof (cases "tok_is_space tok")
    case True
    let ?g = "g @ tok_text tok @ tok_whitespace tok"
    have g: "list_all isspace ?g" using t True Cons.prems(2) by (simp add: tok_spaced_def)
    have step: "spacy_token sfx (v, sent, ?g @ ?rest) tok = (v, sent, ?g @ ?rest)"
      using True by (simp add: spacy_token_def)
    have "fst (foldl (spacy_token sfx) (v, sent, ?g @ ?rest) doc) = v @ spacy_expected sfx sent (?g \<noteq> []) doc"
      by (rule Cons.IH[OF d g])
    moreover have "spacy_expected sfx sent (g \<noteq> []) (tok # doc) = spacy_expected sfx sent (?g \<noteq> []) doc"
      using True by auto
    ultimately show ?thesis using step by simp
  next
    case False
    have tx: "tok_text tok \<noteq> []" "\<not> isspace (hd (tok_text tok))" and w: "list_all isspace (tok_whitespace tok)"
      using t False by (simp_all add: tok_spaced_def)
    let ?r = "tok_whitespace tok @ ?rest"
    let ?out = "(if (case sent of None \<Rightarrow> False | Some s \<Rightarrow> s \<noteq> tok_sent tok) then sent_break else [])
           @ (if tok_is_punct tok \<and> \<not> (g \<noteq> []) then glue else [])
           @ (if tok_text tok = PAR_SEP then par_break
              else tok_text tok @ TAB # (if tok_is_punct tok then tok_text tok else tok_lemma tok)
                   @ TAB # tok_pos tok @ sfx @ [NL])"
    have m: "match_space (g @ tok_text tok @ ?r) \<longleftrightarrow> g \<noteq> []"
      by (rule match_space_gap[OF Cons.prems(2) tx])
    have dw: "dropWhile isspace (g @ tok_text tok @ ?r) = tok_text tok @ ?r"
      by (rule dropWhile_gap[OF Cons.prems(2) tx])
    have step: "spacy_token sfx (v, sent, g @ tok_text tok @ ?r) tok = (v @ ?out, Some (tok_sent tok), ?r)"
      using False m dw by (auto simp: spacy_token_def Let_def split: option.splits)
    have "fst (foldl (spacy_token sfx) (v @ ?out, Some (tok_sent tok), tok_whitespace tok @ ?rest) doc)
          = (v @ ?out) @ spacy_expected sfx (Some (tok_sent tok)) (tok_whitespace tok \<noteq> []) doc"
      by (rule Cons.IH[OF d w])
    moreover have "spacy_expected sfx sent (g \<noteq> []) (tok # doc)
          = ?out @ spacy_expected sfx (Some (tok_sent tok)) (tok_whitespace tok \<noteq> []) doc"
      using False by simp
    ultimately show ?thesis using step by simp
  qed
qed

lemma spacy_vertical_expected:
  assumes "aligned doc tx"
  shows "spacy_vertical doc tx sfx = open_par @ spacy_expected sfx None False doc @ close_par"
  using assms spacy_fold_expected[of doc "[]" sfx open_par None]
  by (simp add: aligned_def spacy_vertical_def)

text \<open>
  C4 (as stated, refuted). The text \<open>don't\<close> is cut into the two tokens \<open>do\<close> and
  \<open>n't\<close>, aligned with the text and with nothing between them; neither is
  punctuation, and the in-process backend writes no glue marker between their lines.
\<close>

theorem C4_no_glue_between_words_counterexample:
  "aligned ex_dont ''don't''
   \<and> spacy_vertical ex_dont ''don't'' (TAB # ex_html)
     = unlines [''<p>'', ''<s>'',
                tabbed [''do'', ''do'', ''AUX'', ex_html],
                tabbed [''n't'', ''not'', ''PART'', ex_html],
                ''</s>'', ''</p>'']"
  by code_simp

text \<open>
  C4 (amended). Remote backend: for a line of the payload that is a token record and not
  the sentinel, the vertical has the token's line, directly after it exactly one glue
  marker when the last of its ten fields contains \<open>SpaceAfter=No\<close> and none otherwise,
  and then what the lines after it add, which never starts with a glue marker.
  In-process backend, for tokens aligned with the text: the vertical is the one told by
  \<open>spacy_expected\<close>, with exactly one glue marker directly before every punctuation
  token that no whitespace separates from what is before it, and none before any other
  token.
\<close>

theorem C4_glue_placement:
  assumes "split_chr NL result = before @ line # after"
          "udp_record line = Some parts" "parts ! 1 \<noteq> PAR_SEP" "NL \<notin> set sfx"
      and "aligned doc tx"
  shows "udp_vertical result sfx
         = open_par @ udp_body sfx before
           @ (parts ! 1 @ TAB # parts ! 2 @ TAB # parts ! 3 @ sfx @ [NL])
           @ (if contains (parts ! 9) ''SpaceAfter=No'' then glue else [])
           @ udp_body sfx after @ close_par
       \<and> \<not> prefix glue (udp_body sfx after @ close_par)
       \<and> spacy_vertical doc tx sfx = open_par @ spacy_expected sfx None False doc @ close_par"
proof -
  have "udp_line sfx line = (parts ! 1 @ TAB # parts ! 2 @ TAB # parts ! 3 @ sfx @ [NL])
           @ (if contains (parts ! 9) ''SpaceAfter=No'' then glue else [])"
    using assms(2,3) by (simp add: udp_line_record)
  then have a: "udp_vertical result sfx
         = open_par @ udp_body sfx before
           @ (parts ! 1 @ TAB # parts ! 2 @ TAB # parts ! 3 @ sfx @ [NL])
           @ (if contains (parts ! 9) ''SpaceAfter=No'' then glue else [])
           @ udp_body sfx after @ close_par"
    using assms(1) by (simp add: udp_vertical_body udp_body_def)
  have "list_all (\<lambda>l. NL \<notin> set l) (before @ line # after)"
    using split_chr_free[of NL result] assms(1) by simp
  then have "list_all (\<lambda>l. NL \<notin> set l) after" by simp
  then have "\<not> prefix glue (udp_body sfx after @ close_par)"
    by (rule no_glue_after[OF assms(4)])
  then show ?thesis using a spacy_vertical_expected[OF assms(5), of sfx] by blast
qed

theorem C4_glue_placement_witness:
  "split_chr NL ex_edge_payload
     = [conllu_row ''1'' ''PaRaSeP'' ''PaRaSeP'' ''PROPN'' ''_''] @ ex_glued_row
       # [conllu_row ''3'' ''PaRaSeP'' ''PaRaSeP'' ''PROPN'' ''_'',
          conllu_row ''4'' ''PaRaSeP'' ''PaRaSeP'' ''PROPN'' ''_'',
          conllu_row ''5'' ''bar'' ''bar'' ''NOUN'' ''_'',
          conllu_row ''6'' ''PaRaSeP'' ''PaRaSeP'' ''PROPN'' ''_'', [], []]
   \<and> udp_record ex_glued_row = Some ex_glued_fields \<and> ex_glued_fields ! 1 \<noteq> PAR_SEP
   \<and> NL \<notin> set (TAB # ex_html) \<and> aligned ex_tokens ex_text
   \<and> udp_vertical ex_edge_payload (TAB # ex_html)
       = unlines [''<p>'', ''<s>'', ''</s>'', ''</p>'', ''<p>'', ''<s>'',
                  tabbed [''Foo'', ''foo'', ''NOUN'', ex_html], ''<g/>'',
                  ''</s>'', ''</p>'', ''<p>'', ''<s>'', ''</s>'', ''</p>'', ''<p>'', ''<s>'',
                  tabbed [''bar'', ''bar'', ''NOUN'', ex_html],
                  ''</s>'', ''</p>'', ''<p>'', ''<s>'', ''</s>'', ''</p>'']
   \<and> spacy_vertical ex_tokens ex_text (TAB # ex_html)
       = open_par @ spacy_expected (TAB # ex_html) None False ex_tokens @ close_par
   \<and> spacy_expected (TAB # ex_html) None False ex_tokens
       = unlines [tabbed [''Hello'', ''hello'', ''INTJ'', ex_html],
                  tabbed [''world'', ''world'', ''NOUN'', ex_html],
                  ''<g/>'', tabbed [''.'', ''.'', ''PUNCT'', ex_html],
                  ''</s>'', ''<s>'', ''</s>'', ''</p>'', ''<p>'', ''<s>'',
                  tabbed [''Foo'', ''foo'', ''NOUN'', ex_html],
                  ''<g/>'', tabbed [''.'', ''.'', ''PUNCT'', ex_html]]"
proof -
  let ?before = "[conllu_row ''1'' ''PaRaSeP'' ''PaRaSeP'' ''PROPN'' ''_'']"
  let ?after = "[conllu_row ''3'' ''PaRaSeP'' ''PaRaSeP'' ''PROPN'' ''_'',
                 conllu_row ''4'' ''PaRaSeP'' ''PaRaSeP'' ''PROPN'' ''_'',
                 conllu_row ''5'' ''bar'' ''bar'' ''NOUN'' ''_'',
                 conllu_row ''6'' ''PaRaSeP'' ''PaRaSeP'' ''PROPN'' ''_'', [], []]"
  have h0: "split_chr NL ex_edge_payload = ?before @ ex_glued_row # ?after" by code_simp
  have h1: "udp_record ex_glued_row = Some ex_glued_fields" by code_simp
  have h2: "ex_glued_fields ! 1 \<noteq> PAR_SEP" by code_simp
  have h4: "NL \<notin> set (TAB # ex_html)" by code_simp
  have h5: "aligned ex_tokens ex_text" by code_simp
  have v: "open_par @ udp_body (TAB # ex_html) ?before
           @ (ex_glued_fields ! 1 @ TAB # ex_glued_fields ! 2 @ TAB # ex_glued_fields ! 3
              @ (TAB # ex_html) @ [NL])
           @ (if contains (ex_glued_fields ! 9) ''SpaceAfter=No'' then glue else [])
           @ udp_body (TAB # ex_html) ?after @ close_par
         = unlines [''<p>'', ''<s>'', ''</s>'', ''</p>'', ''<p>'', ''<s>'',
                  tabbed [''Foo'', ''foo'', ''NOUN'', ex_html], ''<g/>'',
                  ''</s>'', ''</p>'', ''<p>'', ''<s>'', ''</s>'', ''</p>'', ''<p>'', ''<s>'',
                  tabbed [''bar'', ''bar'', ''NOUN'', ex_html],
                  ''</s>'', ''</p>'', ''<p>'', ''<s>'', ''</s>'', ''</p>'']"
    by code_simp
  have e: "spacy_expected (TAB # ex_html) None False ex_tokens
       = unlines [tabbed [''Hello'', ''hello'', ''INTJ'', ex_html],
                  tabbed [''world'', ''world'', ''NOUN'', ex_html],
                  ''<g/>'', tabbed [''.'', ''.'', ''PUNCT'', ex_html],
                  ''</s>'', ''<s>'', ''</s>'', ''</p>'', ''<p>'', ''<s>'',
                  tabbed [''Foo'', ''foo'', ''NOUN'', ex_html],
                  ''<g/>'', tabbed [''.'', ''.'', ''PUNCT'', ex_html]]"
    by code_simp
  note c = C4_glue_placement[OF h0 h1 h2 h4 h5]
  show ?thesis using h0 h1 h2 h4 h5 e c[THEN conjunct1] c[THEN conjunct2, THEN conjunct2]
    unfolding v by blast
qed

end
